theory Spec2Isabelle
  imports Complex_Main "HOL-Library.Monad_Syntax"
begin

section \<open>Text primitives used by the parsers\<close>

text \<open>
  Python strings are modelled as \<^typ>\<open>string\<close>. The model is exact for ASCII text; the three
  non-ASCII characters of the program's own messages are written as their UTF-8 bytes.
  Whitespace is what \<^verbatim>\<open>str.isspace\<close> and the regular expression class \<^verbatim>\<open>\s\<close> accept
  among the ASCII characters: codes 9 to 13 and 28 to 32.
\<close>

definition isspace :: "char \<Rightarrow> bool" where
  "isspace c = (let n = (of_char c :: nat) in (9 \<le> n \<and> n \<le> 13) \<or> (28 \<le> n \<and> n \<le> 32))"

definition hellip :: string where
  "hellip = [CHR 0xE2, CHR 0x80, CHR 0xA6]"

definition mdash :: string where
  "mdash = [CHR 0xE2, CHR 0x80, CHR 0x94]"

definition rarrow :: string where
  "rarrow = [CHR 0xE2, CHR 0x86, CHR 0x92]"

text \<open>\<^verbatim>\<open>s.lstrip()\<close>, \<^verbatim>\<open>s.rstrip()\<close>, \<^verbatim>\<open>s.strip()\<close>.\<close>

definition lstrip :: "string \<Rightarrow> string" where
  "lstrip s = dropWhile isspace s"

definition rstrip :: "string \<Rightarrow> string" where
  "rstrip s = rev (dropWhile isspace (rev s))"

definition strip :: "string \<Rightarrow> string" where
  "strip s = rstrip (lstrip s)"

text \<open>\<^verbatim>\<open>s.lower()\<close> on ASCII letters.\<close>

definition lower_char :: "char \<Rightarrow> char" where
  "lower_char c = (let n = (of_char c :: nat) in if 65 \<le> n \<and> n \<le> 90 then char_of (n + 32) else c)"

definition lower :: "string \<Rightarrow> string" where
  "lower s = map lower_char s"

text \<open>\<^verbatim>\<open>s.startswith(p)\<close> and \<^verbatim>\<open>p in s\<close>.\<close>

definition startswith :: "string \<Rightarrow> string \<Rightarrow> bool" where
  "startswith s p = (take (length p) s = p)"

fun str_in :: "string \<Rightarrow> string \<Rightarrow> bool" where
  "str_in p [] = (p = [])"
| "str_in p (c # cs) = (startswith (c # cs) p \<or> str_in p cs)"

text \<open>\<^verbatim>\<open>"\n".join(xs)\<close>.\<close>

fun join_nl :: "string list \<Rightarrow> string" where
  "join_nl [] = []"
| "join_nl [x] = x"
| "join_nl (x # y # xs) = x @ [CHR 0x0A] @ join_nl (y # xs)"

text \<open>
  \<^verbatim>\<open>s.splitlines()\<close>: a line ends at \<^verbatim>\<open>\r\n\<close>, or at one of the characters with codes
  10 to 13 and 28 to 30; the line breaks are dropped and no empty last line is produced.
\<close>

definition islinebreak :: "char \<Rightarrow> bool" where
  "islinebreak c = (let n = (of_char c :: nat) in (10 \<le> n \<and> n \<le> 13) \<or> (28 \<le> n \<and> n \<le> 30))"

fun splitlines_from :: "string \<Rightarrow> string \<Rightarrow> string list" where
  "splitlines_from cur [] = (if cur = [] then [] else [cur])"
| "splitlines_from cur (c # cs) =
     (if c = CHR 0x0D \<and> cs \<noteq> [] \<and> hd cs = CHR 0x0A then cur # splitlines_from [] (tl cs)
      else if islinebreak c then cur # splitlines_from [] cs
      else splitlines_from (cur @ [c]) cs)"

definition splitlines :: "string \<Rightarrow> string list" where
  "splitlines s = splitlines_from [] s"

text \<open>
  \<^verbatim>\<open>re.split(r"\s{2,}", s)\<close>: the separators are the maximal runs of two or more whitespace
  characters; a single whitespace character stays inside its field. The first argument is
  the field read so far.
\<close>

function re_split_from :: "string \<Rightarrow> string \<Rightarrow> string list" where
  "re_split_from cur [] = [cur]"
| "re_split_from cur [c] = [cur @ [c]]"
| "re_split_from cur (c # d # cs) =
     (if isspace c \<and> isspace d then cur # re_split_from [] (dropWhile isspace cs)
      else re_split_from (cur @ [c]) (d # cs))"
  by pat_completeness auto
termination
  by (relation "measure (\<lambda>(cur, s). length s)")
     (auto simp: less_Suc_eq_le intro: le_trans [OF length_dropWhile_le])

definition re_split :: "string \<Rightarrow> string list" where
  "re_split s = re_split_from [] s"

text \<open>
  The pieces of the three anchored patterns: a literal, \<^verbatim>\<open>\s*\<close> and \<^verbatim>\<open>\s+\<close>, each returning
  the rest of the text after its match. None of the literals starts with whitespace, so the
  greedy match of the whitespace is the only one.
\<close>

definition lit :: "string \<Rightarrow> string \<Rightarrow> string option" where
  "lit p s = (if startswith s p then Some (drop (length p) s) else None)"

definition ws0 :: "string \<Rightarrow> string option" where
  "ws0 s = Some (dropWhile isspace s)"

definition ws1 :: "string \<Rightarrow> string option" where
  "ws1 s = (case s of [] \<Rightarrow> None | c # cs \<Rightarrow> if isspace c then Some (dropWhile isspace cs) else None)"

text \<open>\<^verbatim>\<open>re.match(r"^\s*Name\s+Id\s+Version\s+Available", line)\<close>\<close>

definition re_header :: "string \<Rightarrow> bool" where
  "re_header line =
     (do { r \<leftarrow> ws0 line; r \<leftarrow> lit ''Name'' r; r \<leftarrow> ws1 r; r \<leftarrow> lit ''Id'' r; r \<leftarrow> ws1 r;
           r \<leftarrow> lit ''Version'' r; r \<leftarrow> ws1 r; lit ''Available'' r } \<noteq> None)"

text \<open>\<^verbatim>\<open>re.match(r"^\s*-{3,}", line)\<close>\<close>

definition re_sep :: "string \<Rightarrow> bool" where
  "re_sep line = (do { r \<leftarrow> ws0 line; lit ''---'' r } \<noteq> None)"

text \<open>\<^verbatim>\<open>re.match(r"^\s*(Name|---)", line)\<close>\<close>

definition re_name_or_dashes :: "string \<Rightarrow> bool" where
  "re_name_or_dashes line =
     (do { r \<leftarrow> ws0 line; lit ''Name'' r } \<noteq> None \<or> do { r \<leftarrow> ws0 line; lit ''---'' r } \<noteq> None)"

text \<open>\<^verbatim>\<open>str(n)\<close> for a length.\<close>

fun decimal :: "nat \<Rightarrow> string" where
  "decimal n = (if n < 10 then [char_of (48 + n)] else decimal (n div 10) @ [char_of (48 + n mod 10)])"

text \<open>\<^verbatim>\<open>xs[-n:]\<close> for a positive \<open>n\<close>: the last \<open>n\<close> elements, or all of a shorter list.\<close>

definition lastn :: "nat \<Rightarrow> 'a list \<Rightarrow> 'a list" where
  "lastn n xs = drop (length xs - n) xs"


section \<open>Python values\<close>

text \<open>
  What \<^verbatim>\<open>json.loads\<close> returns. A dictionary is the list of its items in insertion order, with
  distinct keys. \<open>PFloat\<close> holds the finite floats (the infinities and NaN, truthy like every
  float other than zero, are not represented).
\<close>

datatype pyval =
    PNone
  | PBool bool
  | PInt int
  | PFloat real
  | PStr string
  | PList "pyval list"
  | PDict "(string \<times> pyval) list"

text \<open>Truth value of an object, as \<^verbatim>\<open>if x\<close>, \<^verbatim>\<open>x or y\<close> and \<^verbatim>\<open>x and y\<close> test it.\<close>

fun truthy :: "pyval \<Rightarrow> bool" where
  "truthy PNone = False"
| "truthy (PBool b) = b"
| "truthy (PInt i) = (i \<noteq> 0)"
| "truthy (PFloat r) = (r \<noteq> 0)"
| "truthy (PStr s) = (s \<noteq> [])"
| "truthy (PList xs) = (xs \<noteq> [])"
| "truthy (PDict kvs) = (kvs \<noteq> [])"

text \<open>\<^verbatim>\<open>a or b\<close>\<close>

definition py_or :: "pyval \<Rightarrow> pyval \<Rightarrow> pyval" where
  "py_or a b = (if truthy a then a else b)"

text \<open>\<^verbatim>\<open>d.get(k)\<close> and \<^verbatim>\<open>d.get(k, default)\<close> on a dictionary.\<close>

definition get :: "(string \<times> pyval) list \<Rightarrow> string \<Rightarrow> pyval" where
  "get d k = (case map_of d k of None \<Rightarrow> PNone | Some v \<Rightarrow> v)"

definition get_default :: "(string \<times> pyval) list \<Rightarrow> string \<Rightarrow> pyval \<Rightarrow> pyval" where
  "get_default d k v0 = (case map_of d k of None \<Rightarrow> v0 | Some v \<Rightarrow> v)"

text \<open>\<^verbatim>\<open>type(x).__name__\<close>, as the interpreter's error messages print it.\<close>

fun type_name :: "pyval \<Rightarrow> string" where
  "type_name PNone = ''NoneType''"
| "type_name (PBool b) = ''bool''"
| "type_name (PInt i) = ''int''"
| "type_name (PFloat r) = ''float''"
| "type_name (PStr s) = ''str''"
| "type_name (PList xs) = ''list''"
| "type_name (PDict kvs) = ''dict''"

text \<open>
  The elements a \<^verbatim>\<open>for\<close> loop or \<^verbatim>\<open>list(x)\<close> takes from an object: \<open>Inl\<close> is the message of
  the \<^verbatim>\<open>TypeError\<close> raised for an object that is not iterable.
\<close>

fun py_iter :: "pyval \<Rightarrow> string + pyval list" where
  "py_iter (PList xs) = Inr xs"
| "py_iter (PStr s) = Inr (map (\<lambda>c. PStr [c]) s)"
| "py_iter (PDict kvs) = Inr (map (\<lambda>kv. PStr (fst kv)) kvs)"
| "py_iter v = Inl ([CHR 0x27] @ type_name v @ [CHR 0x27] @ '' object is not iterable'')"

text \<open>The message of the \<^verbatim>\<open>AttributeError\<close> raised by \<^verbatim>\<open>it.get\<close> on an object that is no dictionary.\<close>

definition no_get :: "pyval \<Rightarrow> string" where
  "no_get v = [CHR 0x27] @ type_name v @ [CHR 0x27] @ '' object has no attribute '' @ [CHR 0x27] @ ''get'' @ [CHR 0x27]"

section \<open>Outcomes of calls, processes\<close>

datatype exn = OSError | IndexError | AttributeError

text \<open>A call returns a value, raises, or never returns.\<close>

datatype 'a outcome = Returns 'a | Raises exn | Diverges

text \<open>
  \<^verbatim>\<open>subprocess.Popen(cmd, ...)\<close> returns a process, raises \<^verbatim>\<open>FileNotFoundError\<close> (the executable
  was not found), or raises another \<^verbatim>\<open>OSError\<close> (the file is there and cannot be started, as
  \<^verbatim>\<open>PermissionError\<close>).
\<close>

datatype 'p popen = Spawned 'p | FileNotFoundError | SpawnError

text \<open>
  A process as \<^verbatim>\<open>run_with_live_output\<close> reads it: the lines \<^verbatim>\<open>proc.stdout.readline()\<close> returns
  before the end of the output, and whether the process then exits, with the return code that
  \<^verbatim>\<open>proc.wait()\<close> stores, or keeps running without output for ever.
\<close>

datatype proc_end = Exit int | Hang

record process =
  readlines :: "string list"
  ending :: proc_end

text \<open>
  \<^verbatim>\<open>proc.communicate(timeout=t)\<close> returns the whole output of a process that exits within the
  timeout, or raises \<^verbatim>\<open>TimeoutExpired\<close>; the output written before the timeout is carried
  by the exception.
\<close>

datatype communicate = Output string | TimeoutExpired string

section \<open>The screen: log list, log panel and progress task\<close>

text \<open>
  \<open>logs\<close> is the Python list of that name, \<open>live_log\<close> the lines last given to the "Live Log"
  panel (the panel shows them joined by newlines), \<open>completed\<close> the \<^verbatim>\<open>completed\<close> value of the
  one progress task and \<open>description\<close> the task's description. Three fields record what was
  done, in order: \<open>appended\<close> every line given to \<^verbatim>\<open>logs.append\<close>, \<open>updates\<close> every value
  \<open>completed\<close> has been set to, and \<open>killed\<close> whether \<^verbatim>\<open>proc.kill()\<close> was called.
\<close>

record ui =
  logs :: "string list"
  live_log :: "string list"
  completed :: real
  updates :: "real list"
  description :: string
  killed :: bool
  appended :: "string list"

text \<open>\<^verbatim>\<open>logs.append(s)\<close>\<close>

definition log_append :: "string \<Rightarrow> ui \<Rightarrow> ui" where
  "log_append s u = u\<lparr>logs := logs u @ [s], appended := appended u @ [s]\<rparr>"

text \<open>\<^verbatim>\<open>if len(logs) > 20: logs.pop(0)\<close>\<close>

definition log_pop :: "ui \<Rightarrow> ui" where
  "log_pop u = (if length (logs u) > 20 then u\<lparr>logs := tl (logs u)\<rparr> else u)"

text \<open>\<^verbatim>\<open>layout["logs"].update(Panel(Text("\n".join(logs[-20:])), title="Live Log"))\<close>\<close>

definition render :: "ui \<Rightarrow> ui" where
  "render u = u\<lparr>live_log := lastn 20 (logs u)\<rparr>"

text \<open>
  The list \<open>logs\<close> holds the most recent of the appended lines, in their order: all of them,
  or at least the last 20.
\<close>

definition recent :: "ui \<Rightarrow> bool" where
  "recent u = (logs u = lastn (length (logs u)) (appended u)
     \<and> (length (logs u) = length (appended u) \<or> 20 \<le> length (logs u)))"

text \<open>\<^verbatim>\<open>if len(logs) > 40: logs = logs[-40:]\<close>\<close>

definition log_keep40 :: "ui \<Rightarrow> ui" where
  "log_keep40 u = (if length (logs u) > 40 then u\<lparr>logs := lastn 40 (logs u)\<rparr> else u)"

text \<open>\<^verbatim>\<open>layout["logs"].update(Panel(Text("\n".join(logs)), title="Live Log"))\<close>\<close>

definition render_all :: "ui \<Rightarrow> ui" where
  "render_all u = u\<lparr>live_log := logs u\<rparr>"

text \<open>\<^verbatim>\<open>progress.update(task, completed=v)\<close> and \<^verbatim>\<open>progress.advance(task, 1)\<close>\<close>

definition progress_update :: "real \<Rightarrow> ui \<Rightarrow> ui" where
  "progress_update v u = u\<lparr>completed := v, updates := updates u @ [v]\<rparr>"

definition progress_advance :: "ui \<Rightarrow> ui" where
  "progress_advance u = progress_update (completed u + 1) u"

text \<open>\<^verbatim>\<open>progress.update(task, description=d)\<close>\<close>

definition set_description :: "string \<Rightarrow> ui \<Rightarrow> ui" where
  "set_description d u = u\<lparr>description := d\<rparr>"

section \<open>part2\_helpers: run\_with\_live\_output\<close>

text \<open>
  The local variables of a run: the screen, the list \<open>combined\<close> and the counter \<open>tick\<close>.
  Writing to the console and to the log file is left out of the model.
\<close>

record live_run =
  run_ui :: ui
  combined :: "string list"
  tick :: int

text \<open>The state before \<^verbatim>\<open>Popen\<close>: the task is added with nothing completed, the log seeded with the title.\<close>

definition run_start :: "string \<Rightarrow> live_run" where
  "run_start title =
     \<lparr>run_ui = set_description title (render_all (log_keep40 (log_append title
        \<lparr>logs = [], live_log = [''Starting'' @ hellip], completed = 0, updates = [],
         description = title, killed = False, appended = []\<rparr>))),
      combined = [], tick = 0\<rparr>"

text \<open>The body of the \<^verbatim>\<open>while\<close> loop for one line that \<^verbatim>\<open>readline\<close> returned.\<close>

definition run_line :: "int \<Rightarrow> live_run \<Rightarrow> string \<Rightarrow> live_run" where
  "run_line soft_total r line =
     (if line \<noteq> [] then
        (let s = rstrip line;
             u1 = log_keep40 (log_append s (run_ui r));
             t = tick r + 1;
             u2 = (if t \<le> soft_total then progress_advance u1 else u1)
         in \<lparr>run_ui = render_all u2, combined = combined r @ [s], tick = t\<rparr>)
      else r)"

definition run_loop :: "int \<Rightarrow> live_run \<Rightarrow> string list \<Rightarrow> live_run" where
  "run_loop soft_total r ls = foldl (run_line soft_total) r ls"

text \<open>\<^verbatim>\<open>proc.returncode or 0\<close>\<close>

definition returncode_or_0 :: "int option \<Rightarrow> int" where
  "returncode_or_0 rc = (case rc of None \<Rightarrow> 0 | Some c \<Rightarrow> if c \<noteq> 0 then c else 0)"

text \<open>
  The run with the state it leaves: the loop ends when the output has ended and the process
  has exited, and it has no other exit.
\<close>

definition live_session :: "string list \<Rightarrow> string \<Rightarrow> int \<Rightarrow> process popen \<Rightarrow> live_run \<times> (int \<times> string) outcome" where
  "live_session cmd title soft_total p =
     (let r0 = run_start title in
      case p of
        FileNotFoundError \<Rightarrow>
          (case cmd of
             [] \<Rightarrow> (r0, Raises IndexError)
           | exe # args \<Rightarrow> (r0, Returns (127, ''Command not found: '' @ exe)))
      | SpawnError \<Rightarrow> (r0, Raises OSError)
      | Spawned proc \<Rightarrow>
          (let r1 = run_loop soft_total r0 (readlines proc) in
           case ending proc of
             Hang \<Rightarrow> (r1, Diverges)
           | Exit rc \<Rightarrow>
               (r1\<lparr>run_ui := progress_update (of_int soft_total) (run_ui r1)\<rparr>,
                Returns (returncode_or_0 (Some rc), join_nl (combined r1)))))"

definition run_with_live_output :: "string list \<Rightarrow> string \<Rightarrow> int \<Rightarrow> process popen \<Rightarrow> (int \<times> string) outcome" where
  "run_with_live_output cmd title soft_total p = snd (live_session cmd title soft_total p)"


section \<open>part2\_helpers: winget\_list\_upgrades\<close>

text \<open>
  The dataclass \<^verbatim>\<open>WingetApp(id, name, version, available)\<close>. Its fields are not checked
  against their annotations, so a field holds whatever value the parser puts there.
\<close>

record WingetApp =
  app_id :: pyval
  name :: pyval
  version :: pyval
  available :: pyval

text \<open>
  The body of \<^verbatim>\<open>for it in items\<close> in the JSON branch for an item that is a dictionary: the
  row it appends, if any.
\<close>

definition json_row :: "(string \<times> pyval) list \<Rightarrow> WingetApp option" where
  "json_row it =
     (let pid = py_or (get it ''Id'') (get it ''PackageIdentifier'');
          nm = get_default it ''Name'' (PStr []);
          ver = py_or (py_or (get it ''Version'') (get it ''InstalledVersion'')) (PStr []);
          avail = py_or (py_or (get it ''Available'') (get it ''AvailableVersion'')) (PStr [])
      in if truthy pid \<and> truthy avail
         then Some \<lparr>app_id = pid, name = nm, version = ver, available = avail\<rparr>
         else None)"

text \<open>
  The loop, with the list \<open>rows\<close> built so far. \<open>None\<close> is the exception raised by \<^verbatim>\<open>it.get\<close>
  when \<open>it\<close> is no dictionary.
\<close>

fun json_rows :: "pyval list \<Rightarrow> WingetApp list \<Rightarrow> WingetApp list option" where
  "json_rows [] rows = Some rows"
| "json_rows (PDict it # items) rows =
     (case json_row it of
        Some r \<Rightarrow> json_rows items (rows @ [r])
      | None \<Rightarrow> json_rows items rows)"
| "json_rows (it # items) rows = None"

text \<open>
  The \<^verbatim>\<open>try\<close> block of the JSON branch on the standard output of the first run: \<open>Some rows\<close>
  when the branch returns \<open>rows\<close>, \<open>None\<close> when it leaves the result to the table parse (an
  exception, or no row). \<open>json_loads\<close> is the decoder; \<open>Inl\<close> is its error.
\<close>

definition json_branch :: "(string \<Rightarrow> string + pyval) \<Rightarrow> string \<Rightarrow> WingetApp list option" where
  "json_branch json_loads out =
     (case json_loads out of
        Inl err \<Rightarrow> None
      | Inr items \<Rightarrow>
          (case py_iter items of
             Inl err \<Rightarrow> None
           | Inr its \<Rightarrow>
               (case json_rows its [] of
                  None \<Rightarrow> None
                | Some rows \<Rightarrow> if rows \<noteq> [] then Some rows else None)))"

text \<open>The body of the loop of the table parse for one line: the row it appends, if any.\<close>

definition table_row :: "string \<Rightarrow> WingetApp option" where
  "table_row line =
     (if re_name_or_dashes line then None
      else
        (let parts = re_split (strip line) in
         if length parts \<ge> 4 then
           (let nm = parts ! 0; pid = parts ! 1; ver = parts ! 2; avail = parts ! 3 in
            if pid \<noteq> [] \<and> avail \<noteq> [] \<and> \<not> startswith (lower pid) ''no ''
            then Some \<lparr>app_id = PStr pid, name = PStr nm, version = PStr ver, available = PStr avail\<rparr>
            else None)
         else None))"

definition table_rows :: "string \<Rightarrow> WingetApp list" where
  "table_rows out = List.map_filter table_row (splitlines out)"

text \<open>The runs of winget that \<^verbatim>\<open>winget_list_upgrades\<close> itself starts with \<^verbatim>\<open>subprocess.run\<close>.\<close>

datatype winget_run =
    UpgradeHelp
  | UpgradeJson
  | UpgradeTable

text \<open>
  \<open>ready\<close>: \<^verbatim>\<open>ensure_winget_ready()\<close> returns (it raises \<^verbatim>\<open>RuntimeError\<close> otherwise).
  \<open>help_out\<close>, \<open>json_out\<close> and \<open>table_out\<close> are the standard outputs of the three runs.
  The result is the list returned and the runs made, in order.
\<close>

definition winget_list_upgrades ::
  "(string \<Rightarrow> string + pyval) \<Rightarrow> bool \<Rightarrow> string \<Rightarrow> string \<Rightarrow> string \<Rightarrow> WingetApp list \<times> winget_run list" where
  "winget_list_upgrades json_loads ready help_out json_out table_out =
     (if \<not> ready then ([], [])
      else if str_in ''--output'' help_out then
        (case json_branch json_loads json_out of
           Some rows \<Rightarrow> (rows, [UpgradeHelp, UpgradeJson])
         | None \<Rightarrow> (table_rows table_out, [UpgradeHelp, UpgradeJson, UpgradeTable]))
      else (table_rows table_out, [UpgradeHelp, UpgradeTable]))"

section \<open>part3\_health: \_stream\_winget\_upgrades\<close>

text \<open>The dictionary \<^verbatim>\<open>{"Id": pid, "Name": name, "Version": ver, "Available": avail}\<close>.\<close>

record app =
  Id :: string
  Name :: string
  Version :: string
  Available :: string

text \<open>The local variables of the function, with the screen it shares with its caller.\<close>

record stream_st =
  st_ui :: ui
  apps :: "app list"
  header_seen :: bool
  sep_seen :: bool
  current_pct :: real

text \<open>The nested function \<^verbatim>\<open>_bump\<close>.\<close>

definition bump :: "real \<Rightarrow> real \<Rightarrow> stream_st \<Rightarrow> stream_st" where
  "bump phase_start phase_end st =
     (let step = (phase_end - phase_start) / 50;
          pct = min phase_end (current_pct st + step)
      in st\<lparr>current_pct := pct, st_ui := progress_update pct (st_ui st)\<rparr>)"

text \<open>\<^verbatim>\<open>f"Found: {name} ({pid}) {ver or '?'} -> {avail}"\<close>, the arrow being U+2192.\<close>

definition found_msg :: "string \<Rightarrow> string \<Rightarrow> string \<Rightarrow> string \<Rightarrow> string" where
  "found_msg nm pid ver avail =
     ''Found: '' @ nm @ '' ('' @ pid @ '') '' @ (if ver \<noteq> [] then ver else ''?'') @ '' '' @ rarrow @ '' '' @ avail"

text \<open>The body of \<^verbatim>\<open>for line in (out or "").splitlines()\<close>.\<close>

definition stream_line :: "real \<Rightarrow> real \<Rightarrow> stream_st \<Rightarrow> string \<Rightarrow> stream_st" where
  "stream_line phase_start phase_end st line0 =
     (let line = rstrip line0 in
      if line = [] then bump phase_start phase_end st
      else if re_header line then st\<lparr>header_seen := True, sep_seen := False\<rparr>
      else if header_seen st \<and> re_sep line then st\<lparr>sep_seen := True\<rparr>
      else if \<not> header_seen st \<or> \<not> sep_seen st then bump phase_start phase_end st
      else
        (let parts = re_split (strip line) in
         if length parts \<ge> 4 then
           (let nm = parts ! 0; pid = parts ! 1; ver = parts ! 2; avail = parts ! 3 in
            if startswith (lower pid) ''no '' \<or> startswith (lower nm) ''no ''
            then bump phase_start phase_end st
            else bump phase_start phase_end
                   (st\<lparr>apps := apps st @ [\<lparr>Id = pid, Name = nm, Version = ver, Available = avail\<rparr>],
                      st_ui := render (log_pop (log_append (found_msg nm pid ver avail) (st_ui st)))\<rparr>))
         else bump phase_start phase_end
                (st\<lparr>st_ui := render (log_pop (log_append line (st_ui st)))\<rparr>)))"

definition stream_loop :: "real \<Rightarrow> real \<Rightarrow> stream_st \<Rightarrow> string list \<Rightarrow> stream_st" where
  "stream_loop phase_start phase_end st ls = foldl (stream_line phase_start phase_end) st ls"

text \<open>The state when the loop starts, on the screen \<open>u\<close>.\<close>

definition stream_init :: "real \<Rightarrow> ui \<Rightarrow> stream_st" where
  "stream_init phase_start u =
     \<lparr>st_ui = u, apps = [], header_seen = False, sep_seen = False, current_pct = phase_start\<rparr>"

text \<open>
  The function on the screen \<open>u\<close> it is given (\<open>logs\<close>, \<open>layout\<close> and \<open>progress\<close> are shared with
  the caller and changed in place): the screen it leaves and what the call does.
\<close>

definition stream_winget_upgrades :: "ui \<Rightarrow> real \<Rightarrow> real \<Rightarrow> communicate popen \<Rightarrow> ui \<times> app list outcome" where
  "stream_winget_upgrades u phase_start phase_end p =
     (case p of
        FileNotFoundError \<Rightarrow>
          (render (log_append ''winget not found (install App Installer from Microsoft Store).'' u),
           Returns [])
      | SpawnError \<Rightarrow> (u, Raises OSError)
      | Spawned c \<Rightarrow>
          (let u1 = render (log_append (''Checking for app updates'' @ hellip) u) in
           case c of
             TimeoutExpired partial \<Rightarrow>
               (progress_update phase_end
                  (render (log_pop (log_append ''winget scan timed out.'' (u1\<lparr>killed := True\<rparr>)))),
                Returns [])
           | Output out \<Rightarrow>
               (let st = stream_loop phase_start phase_end (stream_init phase_start u1) (splitlines out)
                in (progress_update phase_end (st_ui st), Returns (apps st)))))"


section \<open>part3\_health: \_scan\_windows\_updates\_quiet\<close>

text \<open>The dictionary appended to \<open>items\<close> for one reported update.\<close>

record os_item =
  Title :: pyval
  KB :: pyval
  UpdateId :: pyval
  Categories :: "pyval list"

text \<open>
  The body of \<^verbatim>\<open>for it in (j or [])\<close> with the list \<open>items\<close> built so far: the list at the end
  of the loop, and the message of the exception that ended it, if one did.
\<close>

fun scan_items :: "pyval list \<Rightarrow> os_item list \<Rightarrow> os_item list \<times> string option" where
  "scan_items [] items = (items, None)"
| "scan_items (PDict it # js) items =
     (case py_iter (py_or (get_default it ''Categories'' (PList [])) (PList [])) of
        Inl msg \<Rightarrow> (items, Some msg)
      | Inr cats \<Rightarrow>
          scan_items js (items @
            [\<lparr>Title = get_default it ''Title'' (PStr []), KB = get_default it ''KB'' PNone,
              UpdateId = get_default it ''UpdateId'' (PStr []), Categories = cats\<rparr>]))"
| "scan_items (it # js) items = (items, Some (no_get it))"

text \<open>The \<^verbatim>\<open>try\<close> block on the stripped output.\<close>

definition scan_parse :: "(string \<Rightarrow> string + pyval) \<Rightarrow> string \<Rightarrow> os_item list \<times> string option" where
  "scan_parse json_loads out =
     (case (if out \<noteq> [] then json_loads out else Inr (PList [])) of
        Inl msg \<Rightarrow> ([], Some msg)
      | Inr j0 \<Rightarrow>
          (let j = (case j0 of PDict d \<Rightarrow> PList [j0] | _ \<Rightarrow> j0) in
           case py_iter (py_or j (PList [])) of
             Inl msg \<Rightarrow> ([], Some msg)
           | Inr js \<Rightarrow> scan_items js []))"

text \<open>\<^verbatim>\<open>(u.get("Title") or "").strip()\<close>: \<open>None\<close> when the value has no method \<^verbatim>\<open>strip\<close>.\<close>

definition title_text :: "pyval \<Rightarrow> string option" where
  "title_text v = (case py_or v (PStr []) of PStr s \<Rightarrow> Some (strip s) | _ \<Rightarrow> None)"

text \<open>
  The loop \<^verbatim>\<open>for u in items[:50]\<close>. \<^verbatim>\<open>progress.tasks[0]\<close> is the one task of the screen, as in
  \<^verbatim>\<open>health_check\<close>, so \<open>current\<close> is read from \<open>completed\<close>.
\<close>

fun report_updates :: "real \<Rightarrow> real \<Rightarrow> os_item list \<Rightarrow> ui \<Rightarrow> ui \<times> exn option" where
  "report_updates phase_start phase_end [] u = (u, None)"
| "report_updates phase_start phase_end (x # xs) u =
     (case title_text (Title x) of
        None \<Rightarrow> (u, Some AttributeError)
      | Some t \<Rightarrow>
          (let u1 = render (log_pop (log_append (''Windows Update: '' @ t) u));
               current = completed u1;
               next_pct = min phase_end (current + (phase_end - phase_start) / 40)
           in report_updates phase_start phase_end xs (progress_update next_pct u1)))"

definition scan_windows_updates_quiet ::
  "(string \<Rightarrow> string + pyval) \<Rightarrow> ui \<Rightarrow> real \<Rightarrow> real \<Rightarrow> communicate popen \<Rightarrow> ui \<times> os_item list outcome" where
  "scan_windows_updates_quiet json_loads u phase_start phase_end p =
     (case p of
        FileNotFoundError \<Rightarrow>
          (progress_update phase_end (render (log_append ''PowerShell not found.'' u)), Returns [])
      | SpawnError \<Rightarrow> (u, Raises OSError)
      | Spawned c \<Rightarrow>
          (let u1 = render (log_append (''Checking Windows updates'' @ hellip) u) in
           case c of
             TimeoutExpired partial \<Rightarrow>
               (progress_update phase_end
                  (render (log_pop (log_append ''Windows update scan timed out.'' (u1\<lparr>killed := True\<rparr>)))),
                Returns [])
           | Output out \<Rightarrow>
               (case scan_parse json_loads (strip out) of
                  (items, err) \<Rightarrow>
                    (let u2 = (case err of
                                 None \<Rightarrow> u1
                               | Some msg \<Rightarrow> render (log_append (''Windows update parse error: '' @ msg) u1))
                     in if items \<noteq> [] then
                          (case report_updates phase_start phase_end (take 50 items) u2 of
                             (u3, Some e) \<Rightarrow> (u3, Raises e)
                           | (u3, None) \<Rightarrow> (progress_update phase_end u3, Returns items))
                        else
                          (progress_update phase_end (render (log_append ''No Windows updates reported.'' u2)),
                           Returns [])))))"

section \<open>part3\_health: health\_check\<close>

text \<open>The screen \<^verbatim>\<open>health_check\<close> builds before the scan.\<close>

definition health_start :: ui where
  "health_start =
     \<lparr>logs = [], live_log = [''Starting'' @ hellip], completed = 0, updates = [],
      description = ''Scanning system health'' @ hellip, killed = False, appended = []\<rparr>"

text \<open>
  The scan of \<^verbatim>\<open>health_check\<close>, from the creation of the screen to the line "Scan complete.":
  the screen it leaves, and the lists \<open>apps\<close> and \<open>os_items\<close> that the summary counts.
  \<open>p\<close> is what starting winget does and \<open>junk\<close> the text \<^verbatim>\<open>human_bytes(junk_size)\<close>.
  The preparation of the dependencies before the scan and the dialogue after the summary are
  not part of the model.
\<close>

definition health_check :: "communicate popen \<Rightarrow> string \<Rightarrow> ui \<times> (app list \<times> os_item list) outcome" where
  "health_check p junk =
     (let u1 = render (log_append (''Preparing winget app scan'' @ hellip)
                 (set_description (''Preparing winget app scan'' @ hellip) health_start))
      in case stream_winget_upgrades u1 0 40 p of
           (u2, Raises e) \<Rightarrow> (u2, Raises e)
         | (u2, Diverges) \<Rightarrow> (u2, Diverges)
         | (u2, Returns found) \<Rightarrow>
             (let u3 = render (log_pop (log_append
                         (''App scan complete. '' @ decimal (length found) @ '' update(s) detected.'') u2));
                  u4 = set_description (''Windows updates disabled '' @ mdash @ '' skipping'' @ hellip) u3;
                  u5 = render (log_pop (log_append ''Windows updates disabled; skipping PowerShell scan.'' u4));
                  u6 = progress_update 80 u5;
                  os_items = [];
                  u7 = render (log_append (''Scanning junk files'' @ hellip)
                         (set_description (''Scanning junk files'' @ hellip) u6));
                  u8 = render (log_pop (log_append (''Junk size detected: '' @ junk) u7));
                  u9 = progress_update 100 u8;
                  u10 = render (log_append ''Scan complete.'' u9)
              in (u10, Returns (found, os_items))))"


section \<open>Properties of run\_with\_live\_output\<close>

lemma combined_run_line:
  "combined (run_line soft_total r l) = combined r @ (if l \<noteq> [] then [rstrip l] else [])"
  by (simp add: run_line_def Let_def)

lemma combined_run_loop:
  "combined (run_loop soft_total r ls) = combined r @ map rstrip (filter (\<lambda>l. l \<noteq> []) ls)"
  unfolding run_loop_def
  by (induction ls arbitrary: r) (simp_all add: combined_run_line)

lemma combined_run_start: "combined (run_start title) = []"
  by (simp add: run_start_def)

text \<open>
  C5, as the code has it. The exit code returned by \<^verbatim>\<open>run_with_live_output\<close> for a process
  that exits is the return code of the process, whatever its sign, and the output returned
  is the lines read, stripped on the right and joined by newlines. A missing return code
  (\<^verbatim>\<open>None\<close>) would become 0. The one code the function makes up itself is 127, for an
  executable that was not found.
\<close>

theorem returncode_verbatim:
  "run_with_live_output cmd title soft_total (Spawned \<lparr>readlines = ls, ending = Exit rc\<rparr>) =
     Returns (rc, join_nl (map rstrip (filter (\<lambda>l. l \<noteq> []) ls)))
   \<and> returncode_or_0 None = 0
   \<and> run_with_live_output (exe # args) title soft_total FileNotFoundError =
       Returns (127, ''Command not found: '' @ exe)"
  by (simp add: run_with_live_output_def live_session_def Let_def returncode_or_0_def
        combined_run_loop combined_run_start)

text \<open>
  C5 as stated fails: a missing return code is turned into 0, which is not a non-zero
  sentinel, and the negative return codes -9 and -15 are returned as they are, not as one
  sentinel value.
\<close>

theorem returncode_counterexample:
  "returncode_or_0 None = 0
   \<and> run_with_live_output [''tool''] ''Run'' 100 (Spawned \<lparr>readlines = [], ending = Exit (- 9)\<rparr>) = Returns (- 9, [])
   \<and> run_with_live_output [''tool''] ''Run'' 100 (Spawned \<lparr>readlines = [], ending = Exit (- 15)\<rparr>) = Returns (- 15, [])"
  by (simp add: run_with_live_output_def live_session_def Let_def returncode_or_0_def
        run_loop_def run_start_def)

text \<open>
  C6, as the code has it. When the executable is not found (\<^verbatim>\<open>Popen\<close> raises
  \<^verbatim>\<open>FileNotFoundError\<close>), \<^verbatim>\<open>run_with_live_output\<close> returns at once, with the screen as it was
  before the start and no line read, the exit code 127 and the message "Command not found"
  as its output; \<^verbatim>\<open>_stream_winget_upgrades\<close> and \<^verbatim>\<open>_scan_windows_updates_quiet\<close> return the
  empty list of rows. Nothing is raised.
\<close>

theorem not_found_127:
  "live_session (exe # args) title soft_total FileNotFoundError =
     (run_start title, Returns (127, ''Command not found: '' @ exe))
   \<and> combined (run_start title) = []
   \<and> snd (stream_winget_upgrades u phase_start phase_end FileNotFoundError) = Returns []
   \<and> snd (scan_windows_updates_quiet json_loads u phase_start phase_end FileNotFoundError) = Returns []"
  by (simp add: live_session_def Let_def combined_run_start stream_winget_upgrades_def
        scan_windows_updates_quiet_def)

text \<open>
  C6 as stated fails for an executable that is found and cannot be started: the error
  \<^verbatim>\<open>Popen\<close> raises then is no \<^verbatim>\<open>FileNotFoundError\<close>, no handler catches it, and it reaches
  the caller.
\<close>

theorem not_started_counterexample:
  "run_with_live_output [''tool''] ''Run'' 100 SpawnError = Raises OSError
   \<and> snd (stream_winget_upgrades health_start 0 40 SpawnError) = Raises OSError"
  by (simp add: run_with_live_output_def live_session_def Let_def stream_winget_upgrades_def)


section \<open>The screen operations\<close>

lemma logs_simps [simp]:
  "logs (log_append s u) = logs u @ [s]"
  "logs (render u) = logs u"
  "logs (progress_update v u) = logs u"
  "logs (set_description d u) = logs u"
  "logs (log_pop u) = (if length (logs u) > 20 then tl (logs u) else logs u)"
  by (simp_all add: log_append_def render_def progress_update_def set_description_def log_pop_def)

lemma live_log_simps [simp]:
  "live_log (log_append s u) = live_log u"
  "live_log (render u) = lastn 20 (logs u)"
  "live_log (progress_update v u) = live_log u"
  "live_log (set_description d u) = live_log u"
  "live_log (log_pop u) = live_log u"
  by (simp_all add: log_append_def render_def progress_update_def set_description_def log_pop_def)

lemma completed_simps [simp]:
  "completed (log_append s u) = completed u"
  "completed (render u) = completed u"
  "completed (progress_update v u) = v"
  "completed (set_description d u) = completed u"
  "completed (log_pop u) = completed u"
  by (simp_all add: log_append_def render_def progress_update_def set_description_def log_pop_def)

lemma updates_simps [simp]:
  "updates (log_append s u) = updates u"
  "updates (render u) = updates u"
  "updates (progress_update v u) = updates u @ [v]"
  "updates (set_description d u) = updates u"
  "updates (log_pop u) = updates u"
  by (simp_all add: log_append_def render_def progress_update_def set_description_def log_pop_def)

lemma appended_simps [simp]:
  "appended (log_append s u) = appended u @ [s]"
  "appended (render u) = appended u"
  "appended (progress_update v u) = appended u"
  "appended (set_description d u) = appended u"
  "appended (log_pop u) = appended u"
  by (simp_all add: log_append_def render_def progress_update_def set_description_def log_pop_def)

lemma killed_simps [simp]:
  "killed (log_append s u) = killed u"
  "killed (render u) = killed u"
  "killed (progress_update v u) = killed u"
  "killed (set_description d u) = killed u"
  "killed (log_pop u) = killed u"
  by (simp_all add: log_append_def render_def progress_update_def set_description_def log_pop_def)

lemma last_lastn: "xs \<noteq> [] \<Longrightarrow> 0 < n \<Longrightarrow> last (lastn n xs) = last xs"
  by (simp add: lastn_def)

lemma last_pop_append [simp]: "last (logs (log_pop (log_append s u))) = s"
  by (cases "logs u") (simp_all add: last_tl)

lemma last_live_log_pop_append [simp]: "last (live_log (render (log_pop (log_append s u)))) = s"
proof -
  have "logs (log_pop (log_append s u)) \<noteq> []"
    by (cases "logs u") simp_all
  then have "last (lastn 20 (logs (log_pop (log_append s u)))) = last (logs (log_pop (log_append s u)))"
    by (rule last_lastn) simp
  then show ?thesis by (simp only: live_log_simps last_pop_append)
qed

lemma last_live_log_update [simp]:
  "last (live_log (progress_update v (render (log_pop (log_append s u))))) = s"
  using last_live_log_pop_append [of s u] by (simp only: live_log_simps)


section \<open>Timeouts\<close>

text \<open>
  C4, as the code has it. When \<^verbatim>\<open>communicate\<close> times out in \<^verbatim>\<open>_stream_winget_upgrades\<close>
  (30 seconds) or \<^verbatim>\<open>_scan_windows_updates_quiet\<close> (40 seconds), the process is killed, the
  line saying that the scan timed out is the last one of the log panel, the progress is set
  to the end of the phase, and the function returns the empty list, whatever the process
  had written before the timeout; \<^verbatim>\<open>health_check\<close> then goes on to the end of the scan,
  with no apps and progress 100. \<^verbatim>\<open>run_with_live_output\<close> has no timeout: with a process
  that never exits it does not return.
\<close>

theorem timeout_ends_phase:
  "killed (fst (stream_winget_upgrades u phase_start phase_end (Spawned (TimeoutExpired partial))))
   \<and> snd (stream_winget_upgrades u phase_start phase_end (Spawned (TimeoutExpired partial))) = Returns []
   \<and> completed (fst (stream_winget_upgrades u phase_start phase_end (Spawned (TimeoutExpired partial)))) = phase_end
   \<and> last (live_log (fst (stream_winget_upgrades u phase_start phase_end (Spawned (TimeoutExpired partial)))))
       = ''winget scan timed out.''
   \<and> killed (fst (scan_windows_updates_quiet json_loads u phase_start phase_end (Spawned (TimeoutExpired partial))))
   \<and> snd (scan_windows_updates_quiet json_loads u phase_start phase_end (Spawned (TimeoutExpired partial))) = Returns []
   \<and> completed (fst (scan_windows_updates_quiet json_loads u phase_start phase_end (Spawned (TimeoutExpired partial)))) = phase_end
   \<and> last (live_log (fst (scan_windows_updates_quiet json_loads u phase_start phase_end (Spawned (TimeoutExpired partial)))))
       = ''Windows update scan timed out.''
   \<and> snd (health_check (Spawned (TimeoutExpired partial)) junk) = Returns ([], [])
   \<and> completed (fst (health_check (Spawned (TimeoutExpired partial)) junk)) = 100
   \<and> run_with_live_output cmd title soft_total (Spawned \<lparr>readlines = ls, ending = Hang\<rparr>) = Diverges"
  by (simp add: stream_winget_upgrades_def scan_windows_updates_quiet_def health_check_def Let_def
        run_with_live_output_def live_session_def del: logs_simps live_log_simps)


text \<open>
  C4 as stated fails: on a timeout the output written so far is dropped. Three lines that
  give one row when the process exits give no row when it times out, and what the caller
  receives then is what it receives for a process that exits without output: the result
  carries no mark of the timeout.
\<close>

theorem timeout_counterexample:
  "snd (stream_winget_upgrades health_start 0 40 (Spawned (TimeoutExpired
      (''Name  Id  Version  Available'' @ [CHR 0x0A] @ ''----'' @ [CHR 0x0A] @ ''Foo Bar   FooBar.App   1.0   2.0'' @ [CHR 0x0A])))) = Returns []
   \<and> snd (stream_winget_upgrades health_start 0 40 (Spawned (Output
      (''Name  Id  Version  Available'' @ [CHR 0x0A] @ ''----'' @ [CHR 0x0A] @ ''Foo Bar   FooBar.App   1.0   2.0'' @ [CHR 0x0A]))))
       = Returns [\<lparr>Id = ''FooBar.App'', Name = ''Foo Bar'', Version = ''1.0'', Available = ''2.0''\<rparr>]
   \<and> snd (stream_winget_upgrades health_start 0 40 (Spawned (Output []))) = Returns []"
  by code_simp


section \<open>The JSON branch of winget\_list\_upgrades\<close>

lemma json_rows_none:
  "(\<And>it. it \<in> set items \<Longrightarrow> \<exists>d. it = PDict d \<and> json_row d = None) \<Longrightarrow> json_rows items rows = Some rows"
proof (induction items arbitrary: rows)
  case Nil
  show ?case by simp
next
  case (Cons it items)
  from Cons.prems [of it] obtain d where d: "it = PDict d" "json_row d = None" by auto
  have "json_rows items rows = Some rows"
    by (rule Cons.IH) (rule Cons.prems, simp)
  with d show ?case by simp
qed

lemma json_rows_all:
  "(\<And>it. it \<in> set items \<Longrightarrow> \<exists>d. it = PDict d \<and> json_row d \<noteq> None) \<Longrightarrow>
   json_rows items rows =
     Some (rows @ map (\<lambda>it. case it of PDict d \<Rightarrow> the (json_row d)) items)"
proof (induction items arbitrary: rows)
  case Nil
  show ?case by simp
next
  case (Cons it items)
  from Cons.prems [of it] obtain d r where d: "it = PDict d" "json_row d = Some r" by auto
  have "json_rows items (rows @ [r]) =
      Some ((rows @ [r]) @ map (\<lambda>it. case it of PDict d \<Rightarrow> the (json_row d)) items)"
    by (rule Cons.IH) (rule Cons.prems, simp)
  with d show ?case by simp
qed

lemma json_row_some:
  assumes "truthy (get d ''Id'') \<or> truthy (get d ''PackageIdentifier'')"
    and "truthy (get d ''Available'') \<or> truthy (get d ''AvailableVersion'')"
  shows "\<exists>r. json_row d = Some r
     \<and> app_id r = (if truthy (get d ''Id'') then get d ''Id'' else get d ''PackageIdentifier'')
     \<and> available r = (if truthy (get d ''Available'') then get d ''Available'' else get d ''AvailableVersion'')
     \<and> name r = get_default d ''Name'' (PStr [])
     \<and> version r = (if truthy (get d ''Version'') then get d ''Version''
                     else if truthy (get d ''InstalledVersion'') then get d ''InstalledVersion''
                     else PStr [])"
  using assms by (auto simp: json_row_def py_or_def Let_def)

lemma json_row_none_iff:
  "json_row d = None \<longleftrightarrow>
     \<not> ((truthy (get d ''Id'') \<or> truthy (get d ''PackageIdentifier''))
        \<and> (truthy (get d ''Available'') \<or> truthy (get d ''AvailableVersion'')))"
  by (auto simp: json_row_def py_or_def Let_def)

lemma json_rows_no_row:
  "(\<And>d. PDict d \<in> set its \<Longrightarrow> json_row d = None) \<Longrightarrow>
   json_rows its rows = Some rows \<or> json_rows its rows = None"
proof (induction its arbitrary: rows)
  case Nil
  show ?case by simp
next
  case (Cons it its)
  have rest: "json_rows its rows = Some rows \<or> json_rows its rows = None"
    by (rule Cons.IH) (rule Cons.prems, simp)
  show ?case
  proof (cases it)
    case (PDict d)
    with Cons.prems [of d] have "json_row d = None" by simp
    with PDict rest show ?thesis by simp
  qed simp_all
qed

text \<open>
  C9. When the first run's output decodes to an array of \<open>k\<close> objects that each have an
  identifier, under "Id" or else under "PackageIdentifier", and an available version, under
  "Available" or else under "AvailableVersion", neither of them empty (in Python's sense of
  a value that counts as true), the loop of the JSON branch builds exactly \<open>k\<close> rows, in the
  order of the array, and the fields of the row at each position are the values of the
  object at that position: the identifier and the available version from the first of their
  two keys that has a value, the name as given or empty, the version as given under "Version"
  or else "InstalledVersion" or empty. When \<open>k\<close> is not zero and the help text offers
  \<^verbatim>\<open>--output\<close>, these rows are what \<^verbatim>\<open>winget_list_upgrades\<close> returns, after two runs.
\<close>

theorem json_round_trip:
  assumes decoded: "json_loads out = Inr (PList items)"
    and required: "\<forall>it \<in> set items. \<exists>d. it = PDict d
          \<and> (truthy (get d ''Id'') \<or> truthy (get d ''PackageIdentifier''))
          \<and> (truthy (get d ''Available'') \<or> truthy (get d ''AvailableVersion''))"
  shows "\<exists>rows. json_rows items [] = Some rows \<and> length rows = length items
    \<and> (\<forall>k < length items. \<exists>d. items ! k = PDict d
          \<and> app_id (rows ! k) =
              (if truthy (get d ''Id'') then get d ''Id'' else get d ''PackageIdentifier'')
          \<and> available (rows ! k) =
              (if truthy (get d ''Available'') then get d ''Available'' else get d ''AvailableVersion'')
          \<and> name (rows ! k) = get_default d ''Name'' (PStr [])
          \<and> version (rows ! k) =
              (if truthy (get d ''Version'') then get d ''Version''
               else if truthy (get d ''InstalledVersion'') then get d ''InstalledVersion''
               else PStr []))
    \<and> (items \<noteq> [] \<longrightarrow> str_in ''--output'' help_out \<longrightarrow>
          winget_list_upgrades json_loads True help_out out table_out = (rows, [UpgradeHelp, UpgradeJson]))"
proof -
  let ?row = "\<lambda>it. case it of PDict d \<Rightarrow> the (json_row d)"
  let ?rows = "map ?row items"
  have some: "\<exists>d. it = PDict d \<and> json_row d \<noteq> None" if "it \<in> set items" for it
  proof -
    from required that obtain d where "it = PDict d"
      "truthy (get d ''Id'') \<or> truthy (get d ''PackageIdentifier'')"
      "truthy (get d ''Available'') \<or> truthy (get d ''AvailableVersion'')" by blast
    with json_row_some [of d] show ?thesis by auto
  qed
  have rows: "json_rows items [] = Some ?rows"
    using json_rows_all [of items "[]"] some by simp
  have fields: "\<exists>d. items ! k = PDict d
          \<and> app_id (?rows ! k) =
              (if truthy (get d ''Id'') then get d ''Id'' else get d ''PackageIdentifier'')
          \<and> available (?rows ! k) =
              (if truthy (get d ''Available'') then get d ''Available'' else get d ''AvailableVersion'')
          \<and> name (?rows ! k) = get_default d ''Name'' (PStr [])
          \<and> version (?rows ! k) =
              (if truthy (get d ''Version'') then get d ''Version''
               else if truthy (get d ''InstalledVersion'') then get d ''InstalledVersion''
               else PStr [])"
    if "k < length items" for k
  proof -
    from that have "items ! k \<in> set items" by simp
    with required obtain d where d: "items ! k = PDict d"
      "truthy (get d ''Id'') \<or> truthy (get d ''PackageIdentifier'')"
      "truthy (get d ''Available'') \<or> truthy (get d ''AvailableVersion'')" by blast
    from json_row_some [OF d(2,3)] obtain r where r: "json_row d = Some r"
      "app_id r = (if truthy (get d ''Id'') then get d ''Id'' else get d ''PackageIdentifier'')"
      "available r = (if truthy (get d ''Available'') then get d ''Available'' else get d ''AvailableVersion'')"
      "name r = get_default d ''Name'' (PStr [])"
      "version r = (if truthy (get d ''Version'') then get d ''Version''
                     else if truthy (get d ''InstalledVersion'') then get d ''InstalledVersion''
                     else PStr [])" by blast
    from that d(1) r(1) have "?rows ! k = r" by simp
    with d(1) r(2-5) show ?thesis by (intro exI [of _ d]) (simp only: simp_thms)
  qed
  have call: "winget_list_upgrades json_loads True help_out out table_out = (?rows, [UpgradeHelp, UpgradeJson])"
    if "items \<noteq> []" "str_in ''--output'' help_out"
    using that decoded rows by (simp add: winget_list_upgrades_def json_branch_def)
  from rows fields call show ?thesis by (intro exI [of _ ?rows] conjI allI impI) simp_all
qed

theorem json_round_trip_witness:
  "winget_list_upgrades
     (\<lambda>out. Inr (PList [PDict [(''Id'', PStr ''Foo.App''), (''Name'', PStr ''Foo''), (''Version'', PStr ''1.0''), (''Available'', PStr ''2.0'')],
                         PDict [(''Name'', PStr ''Bar''), (''AvailableVersion'', PStr ''3.1''),
                                (''PackageIdentifier'', PStr ''Bar.App''), (''InstalledVersion'', PStr ''3.0'')]]))
     True ''usage: --output'' [] [] =
   ([\<lparr>app_id = PStr ''Foo.App'', name = PStr ''Foo'', version = PStr ''1.0'', available = PStr ''2.0''\<rparr>,
     \<lparr>app_id = PStr ''Bar.App'', name = PStr ''Bar'', version = PStr ''3.0'', available = PStr ''3.1''\<rparr>],
    [UpgradeHelp, UpgradeJson])"
proof -
  let ?d1 = "[(''Id'', PStr ''Foo.App''), (''Name'', PStr ''Foo''), (''Version'', PStr ''1.0''), (''Available'', PStr ''2.0'')]"
  let ?d2 = "[(''Name'', PStr ''Bar''), (''AvailableVersion'', PStr ''3.1''),
              (''PackageIdentifier'', PStr ''Bar.App''), (''InstalledVersion'', PStr ''3.0'')]"
  let ?items = "[PDict ?d1, PDict ?d2]"
  let ?loads = "\<lambda>out::string. (Inr (PList ?items) :: string + pyval)"
  have req: "\<forall>it \<in> set ?items. \<exists>d. it = PDict d
          \<and> (truthy (get d ''Id'') \<or> truthy (get d ''PackageIdentifier''))
          \<and> (truthy (get d ''Available'') \<or> truthy (get d ''AvailableVersion''))"
    by (simp add: get_def)
  have flag: "str_in ''--output'' ''usage: --output''" by (simp add: startswith_def)
  from json_round_trip [of ?loads "[]" ?items "''usage: --output''" "[]", OF refl req]
  obtain rows where len: "length rows = length ?items"
    and fields: "\<forall>k < length ?items. \<exists>d. ?items ! k = PDict d
          \<and> app_id (rows ! k) =
              (if truthy (get d ''Id'') then get d ''Id'' else get d ''PackageIdentifier'')
          \<and> available (rows ! k) =
              (if truthy (get d ''Available'') then get d ''Available'' else get d ''AvailableVersion'')
          \<and> name (rows ! k) = get_default d ''Name'' (PStr [])
          \<and> version (rows ! k) =
              (if truthy (get d ''Version'') then get d ''Version''
               else if truthy (get d ''InstalledVersion'') then get d ''InstalledVersion''
               else PStr [])"
    and call: "?items \<noteq> [] \<longrightarrow> str_in ''--output'' ''usage: --output'' \<longrightarrow>
      winget_list_upgrades ?loads True ''usage: --output'' [] [] = (rows, [UpgradeHelp, UpgradeJson])"
    by (elim exE conjE) (rule that)
  from call flag have result: "winget_list_upgrades ?loads True ''usage: --output'' [] [] = (rows, [UpgradeHelp, UpgradeJson])"
    by (simp only: list.simps simp_thms)
  from len obtain r1 r2 where rows: "rows = [r1, r2]"
    by (cases rows; cases "tl rows"; cases "tl (tl rows)") auto
  from fields [rule_format, of 0] rows
  have r1: "r1 = \<lparr>app_id = PStr ''Foo.App'', name = PStr ''Foo'', version = PStr ''1.0'', available = PStr ''2.0''\<rparr>"
    by (cases r1) (simp add: get_def get_default_def)
  from fields [rule_format, of 1] rows
  have r2: "r2 = \<lparr>app_id = PStr ''Bar.App'', name = PStr ''Bar'', version = PStr ''3.0'', available = PStr ''3.1''\<rparr>"
    by (cases r2) (simp add: get_def get_default_def)
  from result rows r1 r2 show ?thesis by (simp only:)
qed

text \<open>
  C10. When winget is ready, the help text offers \<^verbatim>\<open>--output\<close>, and the first run's output
  decodes to a value that gives no row, that is, none of its elements is an object with both
  an identifier and an available version (the empty array, an array of other values, a value
  that is no array at all), \<^verbatim>\<open>winget_list_upgrades\<close> does not return the empty list of the
  JSON branch: it runs winget a third time, without \<^verbatim>\<open>--output\<close>, and returns the rows the
  table parse finds in that output.
\<close>

theorem empty_json_falls_back:
  assumes ready: "ready"
    and json_flag: "str_in ''--output'' help_out"
    and decoded: "json_loads json_out = Inr v"
    and no_row: "\<forall>its d. py_iter v = Inr its \<longrightarrow> PDict d \<in> set its \<longrightarrow>
        \<not> ((truthy (get d ''Id'') \<or> truthy (get d ''PackageIdentifier''))
           \<and> (truthy (get d ''Available'') \<or> truthy (get d ''AvailableVersion'')))"
  shows "winget_list_upgrades json_loads ready help_out json_out table_out =
           (table_rows table_out, [UpgradeHelp, UpgradeJson, UpgradeTable])"
proof -
  have "json_branch json_loads json_out = None"
  proof (cases "py_iter v")
    case (Inl err)
    with decoded show ?thesis by (simp add: json_branch_def)
  next
    case (Inr its)
    have none: "json_row d = None" if "PDict d \<in> set its" for d
      using no_row Inr that by (simp add: json_row_none_iff)
    have "json_rows its [] = Some [] \<or> json_rows its [] = None"
      by (rule json_rows_no_row) (rule none)
    with decoded Inr show ?thesis
      by (auto simp: json_branch_def)
  qed
  with ready json_flag show ?thesis
    by (simp add: winget_list_upgrades_def)
qed

theorem empty_json_falls_back_witness:
  "winget_list_upgrades
      (\<lambda>out. if out = ''[]'' then Inr (PList []) else if out = ''[7]'' then Inr (PList [PInt 7])
              else if out = ''null'' then Inr PNone else Inl ''Expecting value'')
      True ''  -o,--output  Output format'' ''[7]''
      (''Name  Id  Version  Available'' @ [CHR 0x0A] @ ''------'' @ [CHR 0x0A] @ ''Foo  Foo.App  1.0  2.0'') =
     ([\<lparr>app_id = PStr ''Foo.App'', name = PStr ''Foo'', version = PStr ''1.0'', available = PStr ''2.0''\<rparr>],
      [UpgradeHelp, UpgradeJson, UpgradeTable])
   \<and> winget_list_upgrades
      (\<lambda>out. if out = ''[]'' then Inr (PList []) else if out = ''[7]'' then Inr (PList [PInt 7])
              else if out = ''null'' then Inr PNone else Inl ''Expecting value'')
      True ''  -o,--output  Output format'' ''null'' [] = ([], [UpgradeHelp, UpgradeJson, UpgradeTable])
   \<and> winget_list_upgrades
      (\<lambda>out. if out = ''[]'' then Inr (PList []) else if out = ''[7]'' then Inr (PList [PInt 7])
              else if out = ''null'' then Inr PNone else Inl ''Expecting value'')
      True ''  -o,--output  Output format'' ''[]'' [] = ([], [UpgradeHelp, UpgradeJson, UpgradeTable])"
proof -
  let ?table = "''Name  Id  Version  Available'' @ [CHR 0x0A] @ ''------'' @ [CHR 0x0A] @ ''Foo  Foo.App  1.0  2.0''"
  let ?loads = "\<lambda>out. if out = ''[]'' then Inr (PList []) else if out = ''[7]'' then Inr (PList [PInt 7])
              else if out = ''null'' then Inr PNone else (Inl ''Expecting value'' :: string + pyval)"
  let ?flag = "''  -o,--output  Output format''"
  have tbl: "table_rows ?table
     = [\<lparr>app_id = PStr ''Foo.App'', name = PStr ''Foo'', version = PStr ''1.0'', available = PStr ''2.0''\<rparr>]"
    by code_simp
  have none: "table_rows [] = []" by code_simp
  have flag: "str_in ''--output'' ?flag" by code_simp
  have a: "winget_list_upgrades ?loads True ?flag ''[7]'' ?table =
      (table_rows ?table, [UpgradeHelp, UpgradeJson, UpgradeTable])"
    by (rule empty_json_falls_back [of True ?flag ?loads "''[7]''" "PList [PInt 7]", OF TrueI flag]) simp_all
  have b: "winget_list_upgrades ?loads True ?flag ''null'' [] =
      (table_rows [], [UpgradeHelp, UpgradeJson, UpgradeTable])"
    by (rule empty_json_falls_back [of True ?flag ?loads "''null''" PNone, OF TrueI flag]) simp_all
  have c: "winget_list_upgrades ?loads True ?flag ''[]'' [] =
      (table_rows [], [UpgradeHelp, UpgradeJson, UpgradeTable])"
    by (rule empty_json_falls_back [of True ?flag ?loads "''[]''" "PList []", OF TrueI flag]) simp_all
  from a b c show ?thesis by (simp only: tbl none simp_thms)
qed

section \<open>Progress within a phase\<close>

text \<open>
  The progress values are Python floats; they are modelled as real numbers. The properties
  below rest on the order alone: on \<^verbatim>\<open>min\<close>, and on a sum with a step that is not negative
  being no smaller than the value it is added to.
\<close>

lemma bump_fields [simp]:
  "current_pct (bump s e st) = min e (current_pct st + (e - s) / 50)"
  "st_ui (bump s e st) = progress_update (min e (current_pct st + (e - s) / 50)) (st_ui st)"
  "apps (bump s e st) = apps st"
  "header_seen (bump s e st) = header_seen st"
  "sep_seen (bump s e st) = sep_seen st"
  by (simp_all add: bump_def Let_def)

text \<open>One line either leaves the progress alone or bumps it once.\<close>

lemma stream_line_progress:
  "(current_pct (stream_line s e st l) = current_pct st
      \<and> updates (st_ui (stream_line s e st l)) = updates (st_ui st))
   \<or> (current_pct (stream_line s e st l) = min e (current_pct st + (e - s) / 50)
      \<and> updates (st_ui (stream_line s e st l)) =
          updates (st_ui st) @ [min e (current_pct st + (e - s) / 50)])"
  by (simp add: stream_line_def Let_def)

lemma stream_loop_Cons:
  "stream_loop s e st (l # ls) = stream_loop s e (stream_line s e st l) ls"
  by (simp add: stream_loop_def)

lemma stream_loop_progress:
  assumes "s \<le> e"
  shows "current_pct st \<le> e \<Longrightarrow>
    \<exists>new. updates (st_ui (stream_loop s e st ls)) = updates (st_ui st) @ new
      \<and> sorted new \<and> (\<forall>v \<in> set new. current_pct st \<le> v \<and> v \<le> e)
      \<and> current_pct st \<le> current_pct (stream_loop s e st ls)
      \<and> current_pct (stream_loop s e st ls) \<le> e"
proof (induction ls arbitrary: st)
  case Nil
  then show ?case by (simp add: stream_loop_def)
next
  case (Cons l ls)
  let ?st = "stream_line s e st l"
  let ?v = "min e (current_pct st + (e - s) / 50)"
  have v: "current_pct st \<le> ?v" "?v \<le> e"
    using assms Cons.prems by (simp_all add: min_def)
  from stream_line_progress [of s e st l]
  consider (same) "current_pct ?st = current_pct st" "updates (st_ui ?st) = updates (st_ui st)"
    | (bumped) "current_pct ?st = ?v" "updates (st_ui ?st) = updates (st_ui st) @ [?v]"
    by blast
  then show ?case
  proof cases
    case same
    with Cons.prems have "current_pct ?st \<le> e" by simp
    from Cons.IH [OF this] same show ?thesis
      by (simp add: stream_loop_Cons)
  next
    case bumped
    with v have "current_pct ?st \<le> e" by simp
    from Cons.IH [OF this] obtain new where new:
      "updates (st_ui (stream_loop s e ?st ls)) = updates (st_ui ?st) @ new"
      "sorted new" "\<forall>x \<in> set new. current_pct ?st \<le> x \<and> x \<le> e"
      "current_pct ?st \<le> current_pct (stream_loop s e ?st ls)"
      "current_pct (stream_loop s e ?st ls) \<le> e"
      by blast
    have "updates (st_ui (stream_loop s e st (l # ls))) = updates (st_ui st) @ (?v # new)"
      using new(1) bumped(2) by (simp add: stream_loop_Cons)
    moreover have "sorted (?v # new)"
      using new(2,3) bumped(1) by simp
    moreover have "\<forall>x \<in> set (?v # new). current_pct st \<le> x \<and> x \<le> e"
      using new(3) bumped(1) v by (auto intro: order_trans [OF v(1)])
    moreover have "current_pct st \<le> current_pct (stream_loop s e st (l # ls))"
      using order_trans [OF v(1)] new(4) bumped(1) by (simp add: stream_loop_Cons)
    moreover have "current_pct (stream_loop s e st (l # ls)) \<le> e"
      using new(5) by (simp add: stream_loop_Cons)
    ultimately show ?thesis by blast
  qed
qed

lemma stream_progress:
  assumes "s \<le> e"
  shows "\<exists>new. updates (fst (stream_winget_upgrades u s e p)) = updates u @ new
      \<and> sorted new \<and> (\<forall>v \<in> set new. s \<le> v \<and> v \<le> e)
      \<and> ((\<exists>c. p = Spawned c) \<longrightarrow>
            new \<noteq> [] \<and> last new = e \<and> completed (fst (stream_winget_upgrades u s e p)) = e)"
proof (cases p)
  case FileNotFoundError
  then show ?thesis by (simp add: stream_winget_upgrades_def)
next
  case SpawnError
  then show ?thesis by (simp add: stream_winget_upgrades_def)
next
  case (Spawned c)
  show ?thesis
  proof (cases c)
    case (TimeoutExpired partial)
    with Spawned assms show ?thesis
      by (intro exI [of _ "[e]"]) (simp add: stream_winget_upgrades_def Let_def)
  next
    case (Output out)
    let ?u1 = "render (log_append (''Checking for app updates'' @ hellip) u)"
    let ?st0 = "stream_init s ?u1"
    have "current_pct ?st0 \<le> e" using assms by (simp add: stream_init_def)
    from stream_loop_progress [OF assms this, of "splitlines out"]
    obtain new where new:
      "updates (st_ui (stream_loop s e ?st0 (splitlines out))) = updates (st_ui ?st0) @ new"
      "sorted new" "\<forall>x \<in> set new. current_pct ?st0 \<le> x \<and> x \<le> e"
      by blast
    have st0: "updates (st_ui ?st0) = updates u" "current_pct ?st0 = s"
      by (simp_all add: stream_init_def)
    have "updates (fst (stream_winget_upgrades u s e p)) = updates u @ (new @ [e])"
      using Spawned Output new(1) st0(1) by (simp add: stream_winget_upgrades_def Let_def)
    moreover have "sorted (new @ [e])"
      using new(2,3) by (simp add: sorted_append)
    moreover have "\<forall>x \<in> set (new @ [e]). s \<le> x \<and> x \<le> e"
      using new(3) st0(2) assms by auto
    moreover have "completed (fst (stream_winget_upgrades u s e p)) = e"
      using Spawned Output by (simp add: stream_winget_upgrades_def Let_def)
    ultimately show ?thesis by (intro exI [of _ "new @ [e]"]) simp
  qed
qed

text \<open>The loop over the reported updates, from a progress value within the phase.\<close>

lemma report_updates_progress:
  assumes "s \<le> e"
  shows "completed u \<le> e \<Longrightarrow>
    \<exists>new. updates (fst (report_updates s e xs u)) = updates u @ new
      \<and> sorted new \<and> (\<forall>v \<in> set new. completed u \<le> v \<and> v \<le> e)"
proof (induction xs arbitrary: u)
  case Nil
  then show ?case by simp
next
  case (Cons x xs)
  show ?case
  proof (cases "title_text (Title x)")
    case None
    then show ?thesis by simp
  next
    case (Some t)
    let ?u1 = "render (log_pop (log_append (''Windows Update: '' @ t) u))"
    let ?v = "min e (completed u + (e - s) / 40)"
    let ?u2 = "progress_update ?v ?u1"
    have v: "completed u \<le> ?v" "?v \<le> e"
      using assms Cons.prems by (simp_all add: min_def)
    have "completed ?u2 \<le> e" using v(2) by simp
    from Cons.IH [OF this] obtain new where new:
      "updates (fst (report_updates s e xs ?u2)) = updates ?u2 @ new"
      "sorted new" "\<forall>x \<in> set new. completed ?u2 \<le> x \<and> x \<le> e"
      by blast
    have "updates (fst (report_updates s e (x # xs) u)) = updates u @ (?v # new)"
      using Some new(1) by (simp add: Let_def)
    moreover have "sorted (?v # new)" using new(2,3) by simp
    moreover have "\<forall>x \<in> set (?v # new). completed u \<le> x \<and> x \<le> e"
      using new(3) v by (auto intro: order_trans [OF v(1)])
    ultimately show ?thesis by blast
  qed
qed

text \<open>The same from any progress value: the first step brings the value within the phase.\<close>

lemma report_updates_sorted:
  assumes "s \<le> e"
  shows "\<exists>new. updates (fst (report_updates s e xs u)) = updates u @ new
      \<and> sorted new \<and> (\<forall>v \<in> set new. v \<le> e)"
proof (cases xs)
  case Nil
  then show ?thesis by simp
next
  case (Cons x xs')
  show ?thesis
  proof (cases "title_text (Title x)")
    case None
    with Cons show ?thesis by simp
  next
    case (Some t)
    let ?u1 = "render (log_pop (log_append (''Windows Update: '' @ t) u))"
    let ?v = "min e (completed u + (e - s) / 40)"
    let ?u2 = "progress_update ?v ?u1"
    have "completed ?u2 \<le> e" by simp
    from report_updates_progress [OF assms this, of xs'] obtain new where new:
      "updates (fst (report_updates s e xs' ?u2)) = updates ?u2 @ new"
      "sorted new" "\<forall>x \<in> set new. completed ?u2 \<le> x \<and> x \<le> e"
      by blast
    have "updates (fst (report_updates s e xs u)) = updates u @ (?v # new)"
      using Cons Some new(1) by (simp add: Let_def)
    moreover have "sorted (?v # new)" using new(2,3) by simp
    moreover have "\<forall>x \<in> set (?v # new). x \<le> e" using new(3) by auto
    ultimately show ?thesis by blast
  qed
qed

lemma scan_Output:
  assumes "scan_parse json_loads (strip out) = (items, err)"
    and "u1 = render (log_append (''Checking Windows updates'' @ hellip) u)"
    and "u2 = (case err of None \<Rightarrow> u1
                | Some msg \<Rightarrow> render (log_append (''Windows update parse error: '' @ msg) u1))"
  shows "scan_windows_updates_quiet json_loads u s e (Spawned (Output out)) =
     (if items \<noteq> [] then
        (case report_updates s e (take 50 items) u2 of
           (u3, Some ex) \<Rightarrow> (u3, Raises ex)
         | (u3, None) \<Rightarrow> (progress_update e u3, Returns items))
      else (progress_update e (render (log_append ''No Windows updates reported.'' u2)), Returns []))"
  unfolding assms(2,3) using assms(1)
  by (cases err) (simp_all add: scan_windows_updates_quiet_def Let_def)

lemma scan_progress:
  assumes "s \<le> e"
  shows "\<exists>new. updates (fst (scan_windows_updates_quiet json_loads u s e p)) = updates u @ new
      \<and> sorted new \<and> (\<forall>v \<in> set new. v \<le> e)
      \<and> ((\<exists>items. snd (scan_windows_updates_quiet json_loads u s e p) = Returns items) \<longrightarrow>
            new \<noteq> [] \<and> last new = e
            \<and> completed (fst (scan_windows_updates_quiet json_loads u s e p)) = e)"
proof (cases p)
  case FileNotFoundError
  then show ?thesis
    by (intro exI [of _ "[e]"]) (simp add: scan_windows_updates_quiet_def)
next
  case SpawnError
  then show ?thesis by (simp add: scan_windows_updates_quiet_def)
next
  case (Spawned c)
  show ?thesis
  proof (cases c)
    case (TimeoutExpired partial)
    with Spawned show ?thesis
      by (intro exI [of _ "[e]"]) (simp add: scan_windows_updates_quiet_def Let_def)
  next
    case (Output out)
    obtain items err where parse: "scan_parse json_loads (strip out) = (items, err)"
      by (cases "scan_parse json_loads (strip out)")
    define u1 where "u1 = render (log_append (''Checking Windows updates'' @ hellip) u)"
    define u2 where "u2 = (case err of None \<Rightarrow> u1
                | Some msg \<Rightarrow> render (log_append (''Windows update parse error: '' @ msg) u1))"
    have u2: "updates u2 = updates u" by (cases err) (simp_all add: u1_def u2_def)
    note scan = scan_Output [OF parse u1_def u2_def, of s e]
    show ?thesis
    proof (cases "items = []")
      case True
      with Spawned Output scan u2 show ?thesis
        by (intro exI [of _ "[e]"]) simp
    next
      case False
      from report_updates_sorted [OF assms, of "take 50 items" u2] obtain new where new:
        "updates (fst (report_updates s e (take 50 items) u2)) = updates u2 @ new"
        "sorted new" "\<forall>v \<in> set new. v \<le> e"
        by blast
      obtain u3 r where rep: "report_updates s e (take 50 items) u2 = (u3, r)"
        by (cases "report_updates s e (take 50 items) u2")
      with new(1) u2 have u3: "updates u3 = updates u @ new" by simp
      show ?thesis
      proof (cases r)
        case None
        with Spawned Output scan False rep
        have res: "scan_windows_updates_quiet json_loads u s e p = (progress_update e u3, Returns items)"
          by simp
        have "updates (fst (scan_windows_updates_quiet json_loads u s e p)) = updates u @ (new @ [e])"
          using res u3 by simp
        moreover have "sorted (new @ [e])" using new(2,3) by (simp add: sorted_append)
        moreover have "\<forall>v \<in> set (new @ [e]). v \<le> e" using new(3) by auto
        moreover have "completed (fst (scan_windows_updates_quiet json_loads u s e p)) = e"
          using res by simp
        ultimately show ?thesis by (intro exI [of _ "new @ [e]"]) simp
      next
        case (Some ex)
        with Spawned Output scan False rep
        have res: "scan_windows_updates_quiet json_loads u s e p = (u3, Raises ex)"
          by simp
        have "updates (fst (scan_windows_updates_quiet json_loads u s e p)) = updates u @ new"
          using res u3 by simp
        moreover have "snd (scan_windows_updates_quiet json_loads u s e p) = Raises ex"
          using res by simp
        ultimately show ?thesis using new(2,3) by (intro exI [of _ new]) simp
      qed
    qed
  qed
qed


text \<open>
  C1. For a phase range with \<open>phase_start \<le> phase_end\<close>, the values that
  \<^verbatim>\<open>_stream_winget_upgrades\<close> and \<^verbatim>\<open>_scan_windows_updates_quiet\<close> write to the progress task
  during the phase (\<open>new\<close>, after the values \<open>updates u\<close> written before it) never decrease
  and never exceed \<open>phase_end\<close>; those of the per-line bump start from \<open>phase_start\<close>. When
  the phase is completed, that is when winget was started (it exits or times out) and when
  the update scan returns, the last value written is \<open>phase_end\<close> exactly and it is the
  progress the task is left with.
\<close>

theorem progress_within_phase:
  assumes "phase_start \<le> phase_end"
  shows "(\<exists>new. updates (fst (stream_winget_upgrades u phase_start phase_end p)) = updates u @ new
      \<and> sorted new \<and> (\<forall>v \<in> set new. phase_start \<le> v \<and> v \<le> phase_end)
      \<and> ((\<exists>c. p = Spawned c) \<longrightarrow>
            new \<noteq> [] \<and> last new = phase_end
            \<and> completed (fst (stream_winget_upgrades u phase_start phase_end p)) = phase_end))
    \<and> (\<exists>new. updates (fst (scan_windows_updates_quiet json_loads u phase_start phase_end q)) = updates u @ new
      \<and> sorted new \<and> (\<forall>v \<in> set new. v \<le> phase_end)
      \<and> ((\<exists>items. snd (scan_windows_updates_quiet json_loads u phase_start phase_end q) = Returns items) \<longrightarrow>
            new \<noteq> [] \<and> last new = phase_end
            \<and> completed (fst (scan_windows_updates_quiet json_loads u phase_start phase_end q)) = phase_end))"
  using stream_progress [OF assms] scan_progress [OF assms] by (rule conjI)


theorem progress_within_phase_witness:
  "(0::real) \<le> 40
   \<and> updates (fst (stream_winget_upgrades health_start 0 40 (Spawned (Output ''x'')))) = [4 / 5, 40]
   \<and> completed (fst (stream_winget_upgrades health_start 0 40 (Spawned (Output ''x'')))) = 40
   \<and> updates (fst (scan_windows_updates_quiet (\<lambda>out. Inr (PList [PDict [(''Title'', PStr ''KB1'')]]))
         health_start 0 40 (Spawned (Output ''[{}]'')))) = [1, 40]
   \<and> completed (fst (scan_windows_updates_quiet (\<lambda>out. Inr (PList [PDict [(''Title'', PStr ''KB1'')]]))
         health_start 0 40 (Spawned (Output ''[{}]'')))) = 40"
proof -
  let ?p = "Spawned (Output ''x'')"
  let ?q = "Spawned (Output ''[{}]'')"
  let ?loads = "\<lambda>out::string. (Inr (PList [PDict [(''Title'', PStr ''KB1'')]]) :: string + pyval)"
  have le: "(0::real) \<le> 40" by simp
  have ev1: "updates (fst (stream_winget_upgrades health_start 0 40 ?p)) = [4 / 5, 40]"
    by code_simp
  have ev2: "updates (fst (scan_windows_updates_quiet ?loads health_start 0 40 ?q)) = [1, 40]"
    by code_simp
  have ret: "snd (scan_windows_updates_quiet ?loads health_start 0 40 ?q) =
      Returns [\<lparr>Title = PStr ''KB1'', KB = PNone, UpdateId = PStr [], Categories = []\<rparr>]"
    by code_simp
  note phase = progress_within_phase [OF le, of health_start ?p ?loads ?q]
  from phase have "\<exists>new :: real list. ((\<exists>c. ?p = Spawned c) \<longrightarrow>
      new \<noteq> [] \<and> last new = 40 \<and> completed (fst (stream_winget_upgrades health_start 0 40 ?p)) = 40)"
    by (elim conjE exE) (rule exI, assumption)
  then have c1: "completed (fst (stream_winget_upgrades health_start 0 40 ?p)) = 40"
    by blast
  from phase have "\<exists>new :: real list. ((\<exists>items. snd (scan_windows_updates_quiet ?loads health_start 0 40 ?q) = Returns items) \<longrightarrow>
      new \<noteq> [] \<and> last new = 40 \<and> completed (fst (scan_windows_updates_quiet ?loads health_start 0 40 ?q)) = 40)"
    by (elim conjE exE) (rule exI, assumption)
  with ret have c2: "completed (fst (scan_windows_updates_quiet ?loads health_start 0 40 ?q)) = 40"
    by blast
  from le ev1 c1 ev2 c2 show ?thesis by (intro conjI)
qed



section \<open>Header and separator before the rows\<close>

lemma stream_line_header_seen:
  "header_seen (stream_line s e st l) \<Longrightarrow> header_seen st \<or> re_header (rstrip l)"
  by (auto simp: stream_line_def Let_def split: if_splits)

lemma stream_line_both_seen:
  "header_seen (stream_line s e st l) \<and> sep_seen (stream_line s e st l) \<Longrightarrow>
   (header_seen st \<and> sep_seen st) \<or> (header_seen st \<and> re_sep (rstrip l))"
  by (auto simp: stream_line_def Let_def split: if_splits)

lemma stream_line_gate:
  "\<not> (header_seen st \<and> sep_seen st) \<Longrightarrow> apps (stream_line s e st l) = apps st"
  by (auto simp: stream_line_def Let_def)

lemma stream_loop_snoc:
  "stream_loop s e st (ls @ [l]) = stream_line s e (stream_loop s e st ls) l"
  by (simp add: stream_loop_def)

lemma stream_loop_gate:
  fixes s e u ls
  defines "st \<equiv> stream_loop s e (stream_init s u) ls"
  defines "gate \<equiv> \<exists>before sep after. ls = before @ sep # after
      \<and> (\<exists>h \<in> set before. re_header (rstrip h)) \<and> re_sep (rstrip sep)"
  shows "(header_seen st \<longrightarrow> (\<exists>h \<in> set ls. re_header (rstrip h)))
    \<and> (header_seen st \<and> sep_seen st \<longrightarrow> gate)
    \<and> (apps st \<noteq> [] \<longrightarrow> gate)"
  unfolding st_def gate_def
proof (induction ls rule: rev_induct)
  case Nil
  show ?case by (simp add: stream_loop_def stream_init_def)
next
  case (snoc l ls)
  let ?st = "stream_loop s e (stream_init s u) ls"
  let ?st' = "stream_line s e ?st l"
  let ?gate = "\<lambda>ls. \<exists>before sep after. ls = before @ sep # after
      \<and> (\<exists>h \<in> set before. re_header (rstrip h)) \<and> re_sep (rstrip sep)"
  have mono: "?gate (ls @ [l])" if "?gate ls"
  proof -
    from that obtain before sep after where "ls = before @ sep # after"
      "\<exists>h \<in> set before. re_header (rstrip h)" "re_sep (rstrip sep)" by blast
    then have "ls @ [l] = before @ sep # (after @ [l])" by simp
    with \<open>\<exists>h \<in> set before. re_header (rstrip h)\<close> \<open>re_sep (rstrip sep)\<close> show ?thesis by blast
  qed
  have last: "?gate (ls @ [l])" if "\<exists>h \<in> set ls. re_header (rstrip h)" "re_sep (rstrip l)"
    using that by blast
  have h: "\<exists>h \<in> set (ls @ [l]). re_header (rstrip h)" if "header_seen ?st'"
    using stream_line_header_seen [OF that] snoc.IH by auto
  have b: "?gate (ls @ [l])" if "header_seen ?st' \<and> sep_seen ?st'"
    using stream_line_both_seen [OF that] snoc.IH mono last by blast
  have a: "?gate (ls @ [l])" if "apps ?st' \<noteq> []"
  proof (cases "header_seen ?st \<and> sep_seen ?st")
    case True
    with snoc.IH mono show ?thesis by blast
  next
    case False
    from stream_line_gate [OF this] that have "apps ?st \<noteq> []" by simp
    with snoc.IH mono show ?thesis by blast
  qed
  from h b a show ?case by (simp only: stream_loop_snoc) blast
qed


text \<open>
  C8, as the code has it. In \<^verbatim>\<open>_stream_winget_upgrades\<close> a line gives a row only in a state
  where the header line and, after it, a separator line have been seen: in any other state
  the line leaves the rows as they are; lines among which no separator line comes after a
  header line give no row at all, and so does an output with such lines. (The header line is
  one matching \<^verbatim>\<open>Name Id Version Available\<close>, the separator one starting with three dashes.)
  The table parse of \<^verbatim>\<open>winget_list_upgrades\<close> has no such state: all it does about the header
  and the separator is to give no row for a line that starts with \<^verbatim>\<open>Name\<close> or with three dashes.
\<close>

theorem rows_need_header_and_separator:
  "(\<not> (header_seen st \<and> sep_seen st) \<longrightarrow> apps (stream_line phase_start phase_end st l) = apps st)
   \<and> (\<not> (\<exists>before sep after. ls = before @ sep # after
          \<and> (\<exists>h \<in> set before. re_header (rstrip h)) \<and> re_sep (rstrip sep))
        \<longrightarrow> apps (stream_loop phase_start phase_end (stream_init phase_start u) ls) = [])
   \<and> (\<not> (\<exists>before sep after. splitlines out = before @ sep # after
          \<and> (\<exists>h \<in> set before. re_header (rstrip h)) \<and> re_sep (rstrip sep))
        \<longrightarrow> snd (stream_winget_upgrades u phase_start phase_end (Spawned (Output out))) = Returns [])
   \<and> (re_name_or_dashes line \<longrightarrow> table_row line = None)"
proof (intro conjI impI)
  assume "\<not> (header_seen st \<and> sep_seen st)"
  then show "apps (stream_line phase_start phase_end st l) = apps st"
    by (rule stream_line_gate)
next
  assume "\<not> (\<exists>before sep after. ls = before @ sep # after
          \<and> (\<exists>h \<in> set before. re_header (rstrip h)) \<and> re_sep (rstrip sep))"
  with stream_loop_gate [of phase_start phase_end u ls]
  show "apps (stream_loop phase_start phase_end (stream_init phase_start u) ls) = []"
    by blast
next
  let ?u1 = "render (log_append (''Checking for app updates'' @ hellip) u)"
  assume "\<not> (\<exists>before sep after. splitlines out = before @ sep # after
          \<and> (\<exists>h \<in> set before. re_header (rstrip h)) \<and> re_sep (rstrip sep))"
  with stream_loop_gate [of phase_start phase_end ?u1 "splitlines out"]
  have "apps (stream_loop phase_start phase_end (stream_init phase_start ?u1) (splitlines out)) = []"
    by blast
  then show "snd (stream_winget_upgrades u phase_start phase_end (Spawned (Output out))) = Returns []"
    by (simp add: stream_winget_upgrades_def Let_def)
next
  assume "re_name_or_dashes line"
  then show "table_row line = None" by (simp add: table_row_def)
qed

theorem rows_need_header_and_separator_witness:
  "snd (stream_winget_upgrades health_start 0 40 (Spawned (Output ''Foo  Foo.App  1.0  2.0''))) = Returns []
   \<and> apps (stream_line 0 40 (stream_init 0 health_start) ''Foo  Foo.App  1.0  2.0'') = []"
proof -
  let ?out = "''Foo  Foo.App  1.0  2.0''"
  have lines: "splitlines ?out = [?out]" by code_simp
  have no_gate: "\<not> (\<exists>before sep after. splitlines ?out = before @ sep # after
          \<and> (\<exists>h \<in> set before. re_header (rstrip h)) \<and> re_sep (rstrip sep))"
    unfolding lines by (auto simp: Cons_eq_append_conv)
  have closed: "\<not> (header_seen (stream_init 0 health_start) \<and> sep_seen (stream_init 0 health_start))"
    by (simp add: stream_init_def)
  note gate = rows_need_header_and_separator [of "stream_init 0 health_start" 0 40 ?out "[]" health_start ?out "[]"]
  from gate no_gate have "snd (stream_winget_upgrades health_start 0 40 (Spawned (Output ?out))) = Returns []"
    by blast
  moreover from gate closed have "apps (stream_line 0 40 (stream_init 0 health_start) ?out) = apps (stream_init 0 health_start)"
    by blast
  then have "apps (stream_line 0 40 (stream_init 0 health_start) ?out) = []"
    by (simp add: stream_init_def)
  ultimately show ?thesis by (rule conjI)
qed


text \<open>
  C8 as stated fails for the table parse of \<^verbatim>\<open>winget_list_upgrades\<close>, which keeps no state
  from line to line: a data line is parsed into a row with no header line and no separator
  line before it.
\<close>

theorem table_parse_counterexample:
  "fst (winget_list_upgrades (\<lambda>out. Inl ''Expecting value'') True [] [] ''Foo  Foo.App  1.0  2.0'') =
     [\<lparr>app_id = PStr ''Foo.App'', name = PStr ''Foo'', version = PStr ''1.0'', available = PStr ''2.0''\<rparr>]"
  by code_simp



section \<open>The phases of health\_check\<close>

lemma stream_returns:
  "p \<noteq> SpawnError \<Longrightarrow> \<exists>found. snd (stream_winget_upgrades u s e p) = Returns found"
  by (cases p) (simp_all add: stream_winget_upgrades_def Let_def split: communicate.splits)

lemma pop_keeps_suffix:
  assumes "logs u = pre @ suf" "length suf \<le> 20"
  shows "\<exists>pre'. logs (log_pop u) = pre' @ suf"
proof (cases "20 < length (logs u)")
  case True
  with assms have "pre \<noteq> []" by auto
  with assms(1) have "tl (logs u) = tl pre @ suf" by simp
  with True show ?thesis by simp
next
  case False
  with assms(1) show ?thesis by simp
qed

lemma in_lastn_suffix:
  "x \<in> set suf \<Longrightarrow> length suf \<le> n \<Longrightarrow> x \<in> set (lastn n (pre @ suf))"
  by (simp add: lastn_def)

lemma health_check_after_apps:
  assumes apps: "stream_winget_upgrades
      (render (log_append (''Preparing winget app scan'' @ hellip)
         (set_description (''Preparing winget app scan'' @ hellip) health_start))) 0 40 p = (u2, Returns found)"
  shows "\<exists>u. health_check p junk = (u, Returns (found, []))
     \<and> updates u = updates u2 @ [80, 100]
     \<and> ''Windows updates disabled; skipping PowerShell scan.'' \<in> set (live_log u)"
proof -
  define u3 where "u3 = render (log_pop (log_append
      (''App scan complete. '' @ decimal (length found) @ '' update(s) detected.'') u2))"
  define u4 where "u4 = set_description (''Windows updates disabled '' @ mdash @ '' skipping'' @ hellip) u3"
  define u5 where "u5 = render (log_pop (log_append ''Windows updates disabled; skipping PowerShell scan.'' u4))"
  define u6 where "u6 = progress_update 80 u5"
  define u7 where "u7 = render (log_append (''Scanning junk files'' @ hellip)
      (set_description (''Scanning junk files'' @ hellip) u6))"
  define u8 where "u8 = render (log_pop (log_append (''Junk size detected: '' @ junk) u7))"
  define u9 where "u9 = progress_update 100 u8"
  define u10 where "u10 = render (log_append ''Scan complete.'' u9)"
  have result: "health_check p junk = (u10, Returns (found, []))"
    using apps
    by (simp add: health_check_def Let_def u3_def u4_def u5_def u6_def u7_def u8_def u9_def u10_def)
  have upd: "updates u10 = updates u2 @ [80, 100]"
    by (simp add: u3_def u4_def u5_def u6_def u7_def u8_def u9_def u10_def)
  let ?skip = "''Windows updates disabled; skipping PowerShell scan.''"
  have "logs (log_append ?skip u4) = logs u4 @ [?skip]" by simp
  from pop_keeps_suffix [OF this] obtain p5 where p5: "logs u5 = p5 @ [?skip]"
    by (auto simp: u5_def)
  have "logs (log_append (''Junk size detected: '' @ junk) u7) =
      p5 @ [?skip, ''Scanning junk files'' @ hellip, ''Junk size detected: '' @ junk]"
    using p5 by (simp add: u7_def u6_def)
  from pop_keeps_suffix [OF this] obtain p8 where
    p8: "logs u8 = p8 @ [?skip, ''Scanning junk files'' @ hellip, ''Junk size detected: '' @ junk]"
    by (auto simp: u8_def)
  have "live_log u10 = lastn 20 (p8 @ [?skip, ''Scanning junk files'' @ hellip,
      ''Junk size detected: '' @ junk, ''Scan complete.''])"
    using p8 by (simp add: u10_def u9_def)
  moreover have "?skip \<in> set (lastn 20 (p8 @ [?skip, ''Scanning junk files'' @ hellip,
      ''Junk size detected: '' @ junk, ''Scan complete.'']))"
    by (rule in_lastn_suffix) simp_all
  ultimately have "?skip \<in> set (live_log u10)" by simp
  with result upd show ?thesis by blast
qed


text \<open>
  C3, as the code has it. \<^verbatim>\<open>health_check\<close> has three fixed phases, 0 to 40 for the apps,
  40 to 80 for the Windows updates and 80 to 100 for the junk files, and the second is
  disabled in the code. Whenever winget can be started or is not found, the scan returns
  with no Windows update (the update scan is not run), the progress values written are
  those of the app phase, all between 0 and 40 and ending with 40 when winget was started,
  then 80 for the end of the disabled phase, then 100; and the line saying that Windows
  updates are disabled is among the lines the log panel shows at the end. The range of the
  disabled phase is not given to the other phases.
\<close>

theorem disabled_phase_keeps_its_range:
  assumes "p \<noteq> SpawnError"
  shows "\<exists>u found us. health_check p junk = (u, Returns (found, []))
     \<and> updates u = us @ [80, 100]
     \<and> (\<forall>v \<in> set us. 0 \<le> v \<and> v \<le> 40)
     \<and> ((\<exists>c. p = Spawned c) \<longrightarrow> us \<noteq> [] \<and> last us = 40)
     \<and> ''Windows updates disabled; skipping PowerShell scan.'' \<in> set (live_log u)"
proof -
  let ?u1 = "render (log_append (''Preparing winget app scan'' @ hellip)
         (set_description (''Preparing winget app scan'' @ hellip) health_start))"
  obtain u2 r where run: "stream_winget_upgrades ?u1 0 40 p = (u2, r)"
    by (cases "stream_winget_upgrades ?u1 0 40 p")
  with stream_returns [OF assms, of ?u1 0 40] obtain found where r: "r = Returns found"
    by auto
  have "(0::real) \<le> 40" by simp
  from stream_progress [OF this, of ?u1 p] run obtain us where us:
    "updates u2 = updates ?u1 @ us" "\<forall>v \<in> set us. 0 \<le> v \<and> v \<le> 40"
    "(\<exists>c. p = Spawned c) \<longrightarrow> us \<noteq> [] \<and> last us = 40"
    by auto
  have start: "updates ?u1 = []" by (simp add: health_start_def)
  from health_check_after_apps [OF run [unfolded r], of junk] obtain u where
    "health_check p junk = (u, Returns (found, []))" "updates u = updates u2 @ [80, 100]"
    "''Windows updates disabled; skipping PowerShell scan.'' \<in> set (live_log u)"
    by blast
  with us start show ?thesis by (intro exI [of _ u] exI [of _ found] exI [of _ us]) simp
qed

theorem disabled_phase_keeps_its_range_witness:
  "snd (health_check (Spawned (Output ''x'')) ''0.0 B'') = Returns ([], [])
   \<and> updates (fst (health_check (Spawned (Output ''x'')) ''0.0 B'')) = [4 / 5, 40, 80, 100]"
proof -
  let ?p = "Spawned (Output ''x'') :: communicate popen"
  have p: "?p \<noteq> SpawnError" by simp
  have ev: "updates (fst (health_check ?p ''0.0 B'')) = [4 / 5, 40, 80, 100]"
    by code_simp
  have found: "fst (case snd (health_check ?p ''0.0 B'') of Returns r \<Rightarrow> r) = []"
    by code_simp
  from disabled_phase_keeps_its_range [OF p, of "''0.0 B''"] obtain u found us where
    "health_check ?p ''0.0 B'' = (u, Returns (found, []))"
    by (elim exE conjE) (rule that)
  with found have "snd (health_check ?p ''0.0 B'') = Returns ([], [])" by simp
  then show ?thesis using ev by (rule conjI)
qed


text \<open>
  C3 as stated fails: with the second phase disabled and an empty winget output, the app
  phase still ends at 40 (not at a larger share of the scale), the progress is then set to
  80, the end of the range of the disabled phase, and the log holds a line for that phase.
\<close>

theorem disabled_phase_counterexample:
  "updates (fst (health_check (Spawned (Output [])) ''0.0 B'')) = [40, 80, 100]
   \<and> ''Windows updates disabled; skipping PowerShell scan.''
        \<in> set (logs (fst (health_check (Spawned (Output [])) ''0.0 B'')))"
  by code_simp



section \<open>What one line does\<close>

lemma length_lastn [simp]: "length (lastn n xs) = min n (length xs)"
  by (simp add: lastn_def)

lemma lastn_all: "length xs \<le> n \<Longrightarrow> lastn n xs = xs"
  by (simp add: lastn_def)

lemma lastn_append_long: "n \<le> length ys \<Longrightarrow> lastn n (xs @ ys) = lastn n ys"
  by (simp add: lastn_def)

lemma lastn_snoc: "0 < n \<Longrightarrow> lastn n (lastn n xs @ [a]) = lastn n (xs @ [a])"
  by (cases "length xs \<le> n") (simp_all add: lastn_def Suc_diff_le)


lemma run_ui_fields [simp]:
  "logs (log_keep40 u) = lastn 40 (logs u)"
  "appended (log_keep40 u) = appended u"
  "updates (log_keep40 u) = updates u"
  "completed (log_keep40 u) = completed u"
  "logs (render_all u) = logs u"
  "appended (render_all u) = appended u"
  "updates (render_all u) = updates u"
  "completed (render_all u) = completed u"
  "live_log (render_all u) = logs u"
  "logs (progress_advance u) = logs u"
  "appended (progress_advance u) = appended u"
  "updates (progress_advance u) = updates u @ [completed u + 1]"
  "completed (progress_advance u) = completed u + 1"
  by (simp_all add: log_keep40_def render_all_def progress_advance_def lastn_all)

lemma run_loop_snoc: "run_loop soft r (ls @ [l]) = run_line soft (run_loop soft r ls) l"
  by (simp add: run_loop_def)

lemma run_start_fields:
  "logs (run_ui (run_start title)) = [title]"
  "appended (run_ui (run_start title)) = [title]"
  "updates (run_ui (run_start title)) = []"
  "completed (run_ui (run_start title)) = 0"
  "tick (run_start title) = 0"
  "live_log (run_ui (run_start title)) = [title]"
  by (simp_all add: run_start_def lastn_all)

lemma run_loop_log:
  "logs (run_ui (run_loop soft (run_start title) ls)) =
     lastn 40 (title # map rstrip (filter (\<lambda>l. l \<noteq> []) ls))
   \<and> appended (run_ui (run_loop soft (run_start title) ls)) =
     title # map rstrip (filter (\<lambda>l. l \<noteq> []) ls)
   \<and> live_log (run_ui (run_loop soft (run_start title) ls)) =
     logs (run_ui (run_loop soft (run_start title) ls))"
proof (induction ls rule: rev_induct)
  case Nil
  show ?case by (simp add: run_loop_def run_start_fields lastn_all)
next
  case (snoc l ls)
  show ?case
  proof (cases "l = []")
    case True
    with snoc show ?thesis by (simp add: run_loop_snoc run_line_def)
  next
    case False
    have "lastn 40 (lastn 40 (title # map rstrip (filter (\<lambda>l. l \<noteq> []) ls)) @ [rstrip l]) =
        lastn 40 ((title # map rstrip (filter (\<lambda>l. l \<noteq> []) ls)) @ [rstrip l])"
      by (rule lastn_snoc) simp
    with False snoc show ?thesis by (simp add: run_loop_snoc run_line_def Let_def)
  qed
qed

lemma run_loop_progress:
  "tick (run_loop soft (run_start title) ls) = int (length (filter (\<lambda>l. l \<noteq> []) ls))
   \<and> length (updates (run_ui (run_loop soft (run_start title) ls))) =
       min (length (filter (\<lambda>l. l \<noteq> []) ls)) (nat soft)
   \<and> completed (run_ui (run_loop soft (run_start title) ls)) =
       real (min (length (filter (\<lambda>l. l \<noteq> []) ls)) (nat soft))"
proof (induction ls rule: rev_induct)
  case Nil
  show ?case by (simp add: run_loop_def run_start_fields)
next
  case (snoc l ls)
  show ?case
  proof (cases "l = []")
    case True
    with snoc show ?thesis by (simp add: run_loop_snoc run_line_def)
  next
    case False
    with snoc show ?thesis
      by (auto simp: run_loop_snoc run_line_def Let_def min_def)
  qed
qed


lemma stream_line_bumps:
  "length (updates (st_ui (stream_line s e st l))) =
     length (updates (st_ui st)) +
       (if rstrip l \<noteq> [] \<and> (re_header (rstrip l) \<or> header_seen st \<and> re_sep (rstrip l)) then 0 else 1)"
  by (simp add: stream_line_def Let_def)

lemma stream_line_appends:
  "appended (st_ui (stream_line s e st l)) =
     (if rstrip l \<noteq> [] \<and> \<not> re_header (rstrip l) \<and> \<not> (header_seen st \<and> re_sep (rstrip l))
         \<and> header_seen st \<and> sep_seen st
         \<and> \<not> (4 \<le> length (re_split (strip (rstrip l)))
              \<and> (startswith (lower (re_split (strip (rstrip l)) ! 1)) ''no ''
                 \<or> startswith (lower (re_split (strip (rstrip l)) ! 0)) ''no ''))
      then appended (st_ui st) @
        [if 4 \<le> length (re_split (strip (rstrip l)))
         then found_msg (re_split (strip (rstrip l)) ! 0) (re_split (strip (rstrip l)) ! 1)
                (re_split (strip (rstrip l)) ! 2) (re_split (strip (rstrip l)) ! 3)
         else rstrip l]
      else appended (st_ui st))"
  by (simp add: stream_line_def Let_def)

lemma run_loop_updates:
  "updates (run_ui (run_loop soft (run_start title) ls)) =
     map real [1..<Suc (min (length (filter (\<lambda>l. l \<noteq> []) ls)) (nat soft))]"
proof (induction ls rule: rev_induct)
  case Nil
  show ?case by (simp add: run_loop_def run_start_fields)
next
  case (snoc l ls)
  let ?n = "length (filter (\<lambda>l. l \<noteq> []) ls)"
  note prog = run_loop_progress [of soft title ls]
  show ?case
  proof (cases "l = []")
    case True
    with snoc show ?thesis by (simp add: run_loop_snoc run_line_def)
  next
    case False
    show ?thesis
    proof (cases "int ?n + 1 \<le> soft")
      case True
      then have m: "min ?n (nat soft) = ?n" "min (Suc ?n) (nat soft) = Suc ?n" by auto
      from False True prog snoc show ?thesis
        by (simp add: run_loop_snoc run_line_def Let_def m)
    next
      case no: False
      then have m: "min ?n (nat soft) = nat soft" "min (Suc ?n) (nat soft) = nat soft" by auto
      from False no prog snoc show ?thesis
        by (simp add: run_loop_snoc run_line_def Let_def m)
    qed
  qed
qed

lemma stream_line_updates:
  "updates (st_ui (stream_line s e st l)) =
     updates (st_ui st) @
       (if rstrip l \<noteq> [] \<and> (re_header (rstrip l) \<or> header_seen st \<and> re_sep (rstrip l)) then []
        else [min e (current_pct st + (e - s) / 50)])"
  by (simp add: stream_line_def Let_def)

text \<open>
  C7, as the code has it. \<^verbatim>\<open>run_with_live_output\<close> appends every line it reads, stripped on
  the right, to the combined output and to the log, of which it keeps the last 40 lines, and
  advances the progress by one for each of the first \<open>soft_total\<close> lines only: the values
  written are 1, 2, and so on up to the smaller of the number of lines and \<open>soft_total\<close>. It
  has no row parser. In \<^verbatim>\<open>_stream_winget_upgrades\<close> a line advances the progress exactly
  once, by one step of the phase and not beyond its end, blank lines included, unless it is
  the header line or a separator line after the header, which do not advance it; and a
  blank line, or a line read before header and separator have been seen, is not appended
  to the log.
\<close>

theorem one_line_one_step:
  "combined (run_loop soft_total (run_start title) ls) = map rstrip (filter (\<lambda>l. l \<noteq> []) ls)
   \<and> appended (run_ui (run_loop soft_total (run_start title) ls)) =
       title # map rstrip (filter (\<lambda>l. l \<noteq> []) ls)
   \<and> logs (run_ui (run_loop soft_total (run_start title) ls)) =
       lastn 40 (title # map rstrip (filter (\<lambda>l. l \<noteq> []) ls))
   \<and> updates (run_ui (run_loop soft_total (run_start title) ls)) =
       map real [1..<Suc (min (length (filter (\<lambda>l. l \<noteq> []) ls)) (nat soft_total))]
   \<and> completed (run_ui (run_loop soft_total (run_start title) ls)) =
       real (min (length (filter (\<lambda>l. l \<noteq> []) ls)) (nat soft_total))
   \<and> updates (st_ui (stream_line phase_start phase_end st l)) =
       updates (st_ui st) @
         (if rstrip l \<noteq> [] \<and> (re_header (rstrip l) \<or> header_seen st \<and> re_sep (rstrip l)) then []
          else [min phase_end (current_pct st + (phase_end - phase_start) / 50)])
   \<and> (rstrip l = [] \<or> \<not> (header_seen st \<and> sep_seen st) \<longrightarrow>
        appended (st_ui (stream_line phase_start phase_end st l)) = appended (st_ui st))"
  by (simp add: combined_run_loop combined_run_start run_loop_log run_loop_progress
        run_loop_updates stream_line_updates stream_line_appends)

theorem one_line_one_step_witness:
  "logs (run_ui (run_loop 2 (run_start ''Run'') (replicate 41 ''x''))) = replicate 40 ''x''
   \<and> updates (run_ui (run_loop 2 (run_start ''Run'') (replicate 41 ''x''))) = [1, 2]
   \<and> completed (run_ui (run_loop 2 (run_start ''Run'') (replicate 41 ''x''))) = 2
   \<and> updates (st_ui (stream_line 0 40 (stream_init 0 health_start) [])) = [4 / 5]
   \<and> appended (st_ui (stream_line 0 40 (stream_init 0 health_start) [])) = []"
proof -
  note step = one_line_one_step [of 2 "''Run''" "replicate 41 ''x''" 0 40 "stream_init 0 health_start" "[]"]
  have window: "lastn 40 (''Run'' # map rstrip (filter (\<lambda>l. l \<noteq> []) (replicate 41 ''x''))) = replicate 40 ''x''"
    by code_simp
  have count: "min (length (filter (\<lambda>l. l \<noteq> []) (replicate 41 ''x''))) (nat 2) = 2"
    by code_simp
  have steps: "map real [1..<Suc 2] = [1, 2]"
    by (simp add: upt_rec)
  have blank: "rstrip [] = []" by (simp add: rstrip_def)
  have start: "updates (st_ui (stream_init 0 health_start)) = []"
    "appended (st_ui (stream_init 0 health_start)) = []"
    "current_pct (stream_init 0 health_start) = 0"
    by (simp_all add: stream_init_def health_start_def)
  from step show ?thesis
    by (simp only: window count steps blank start) simp
qed

text \<open>
  C7 as stated fails: the header line does not advance the progress (the only value written
  is the final 40), a blank line is not appended to the log (the log holds the opening line
  alone), and with \<open>soft_total = 1\<close> the second of two lines does not advance the progress
  (one step to 1, then the final value 1).
\<close>

theorem one_line_one_step_counterexample:
  "updates (fst (stream_winget_upgrades health_start 0 40
      (Spawned (Output ''Name  Id  Version  Available'')))) = [40]
   \<and> appended (fst (stream_winget_upgrades health_start 0 40 (Spawned (Output [CHR 0x0A])))) =
       [''Checking for app updates'' @ hellip]
   \<and> updates (run_ui (fst (live_session [''tool''] ''Run'' 1
       (Spawned \<lparr>readlines = [''a'' @ [CHR 0x0A], ''b'' @ [CHR 0x0A]], ending = Exit 0\<rparr>)))) = [1, 1]"
  by code_simp

section \<open>The rolling log\<close>

lemma recent_iff:
  "recent u \<longleftrightarrow> (\<exists>old. appended u = old @ logs u \<and> (old = [] \<or> 20 \<le> length (logs u)))"
proof
  assume r: "recent u"
  let ?old = "take (length (appended u) - length (logs u)) (appended u)"
  from r have l: "logs u = drop (length (appended u) - length (logs u)) (appended u)"
    by (simp add: recent_def lastn_def)
  have "appended u = ?old @ drop (length (appended u) - length (logs u)) (appended u)"
    by simp
  with l have "appended u = ?old @ logs u" by simp
  moreover from r have "?old = [] \<or> 20 \<le> length (logs u)"
    by (auto simp: recent_def)
  ultimately show "\<exists>old. appended u = old @ logs u \<and> (old = [] \<or> 20 \<le> length (logs u))"
    by blast
next
  assume "\<exists>old. appended u = old @ logs u \<and> (old = [] \<or> 20 \<le> length (logs u))"
  then show "recent u" by (auto simp: recent_def lastn_def)
qed

lemma recent_lastn: "recent u \<Longrightarrow> lastn 20 (logs u) = lastn 20 (appended u)"
  by (auto simp: recent_iff lastn_append_long)

lemma recent_append: "recent u \<Longrightarrow> recent (log_append s u)"
  by (auto simp: recent_iff)

lemma recent_pop: "recent u \<Longrightarrow> recent (log_pop u)"
proof -
  assume "recent u"
  then obtain old where old: "appended u = old @ logs u" "old = [] \<or> 20 \<le> length (logs u)"
    by (auto simp: recent_iff)
  show ?thesis
  proof (cases "20 < length (logs u)")
    case True
    then obtain x xs where x: "logs u = x # xs" by (cases "logs u") auto
    with old True have "appended (log_pop u) = (old @ [x]) @ logs (log_pop u)" "20 \<le> length (logs (log_pop u))"
      by simp_all
    then show ?thesis unfolding recent_iff by blast
  next
    case False
    with old show ?thesis unfolding recent_iff by auto
  qed
qed

lemma recent_other [simp]:
  "recent (render u) = recent u"
  "recent (progress_update v u) = recent u"
  "recent (set_description d u) = recent u"
  "recent (u\<lparr>killed := k\<rparr>) = recent u"
  by (simp_all add: recent_def render_def progress_update_def set_description_def)

lemma recent_start: "recent health_start"
  by (simp add: recent_def health_start_def lastn_def)

lemma stream_line_shown:
  assumes "recent (st_ui st)" "live_log (st_ui st) = lastn 20 (appended (st_ui st))"
  shows "recent (st_ui (stream_line s e st l))
    \<and> live_log (st_ui (stream_line s e st l)) = lastn 20 (appended (st_ui (stream_line s e st l)))"
  using assms
  by (simp add: stream_line_def Let_def recent_lastn recent_pop recent_append del: logs_simps)

lemma stream_loop_shown:
  "recent (st_ui st) \<Longrightarrow> live_log (st_ui st) = lastn 20 (appended (st_ui st)) \<Longrightarrow>
   recent (st_ui (stream_loop s e st ls))
    \<and> live_log (st_ui (stream_loop s e st ls)) = lastn 20 (appended (st_ui (stream_loop s e st ls)))"
proof (induction ls arbitrary: st)
  case Nil
  then show ?case by (simp add: stream_loop_def)
next
  case (Cons l ls)
  from stream_line_shown [OF Cons.prems, of s e l]
  have "recent (st_ui (stream_line s e st l))"
    "live_log (st_ui (stream_line s e st l)) = lastn 20 (appended (st_ui (stream_line s e st l)))"
    by simp_all
  from Cons.IH [OF this] show ?case by (simp add: stream_loop_Cons)
qed

lemma stream_shown:
  assumes "recent u" "p \<noteq> SpawnError"
  shows "recent (fst (stream_winget_upgrades u s e p))
    \<and> live_log (fst (stream_winget_upgrades u s e p)) =
        lastn 20 (appended (fst (stream_winget_upgrades u s e p)))"
proof (cases p)
  case FileNotFoundError
  with assms(1) show ?thesis
    by (simp add: stream_winget_upgrades_def recent_lastn recent_append del: logs_simps)
next
  case SpawnError
  with assms(2) show ?thesis by simp
next
  case (Spawned c)
  let ?u1 = "render (log_append (''Checking for app updates'' @ hellip) u)"
  have u1: "recent ?u1" "live_log ?u1 = lastn 20 (appended ?u1)"
    using assms(1) by (simp_all add: recent_lastn recent_append del: logs_simps)
  show ?thesis
  proof (cases c)
    case (TimeoutExpired partial)
    with Spawned assms(1) show ?thesis
      by (simp add: stream_winget_upgrades_def Let_def recent_lastn recent_pop recent_append
            del: logs_simps)
  next
    case (Output out)
    have "recent (st_ui (stream_init s ?u1))"
      "live_log (st_ui (stream_init s ?u1)) = lastn 20 (appended (st_ui (stream_init s ?u1)))"
      using u1 by (simp_all add: stream_init_def)
    from stream_loop_shown [OF this, of s e "splitlines out"] Spawned Output show ?thesis
      by (simp add: stream_winget_upgrades_def Let_def)
  qed
qed

lemma report_updates_shown:
  "recent u \<Longrightarrow> live_log u = lastn 20 (appended u) \<Longrightarrow>
   recent (fst (report_updates s e xs u))
    \<and> live_log (fst (report_updates s e xs u)) = lastn 20 (appended (fst (report_updates s e xs u)))"
proof (induction xs arbitrary: u)
  case Nil
  then show ?case by simp
next
  case (Cons x xs)
  show ?case
  proof (cases "title_text (Title x)")
    case None
    with Cons.prems show ?thesis by simp
  next
    case (Some t)
    let ?u1 = "render (log_pop (log_append (''Windows Update: '' @ t) u))"
    let ?u2 = "progress_update (min e (completed ?u1 + (e - s) / 40)) ?u1"
    have "recent ?u2" "live_log ?u2 = lastn 20 (appended ?u2)"
      using Cons.prems(1) by (simp_all add: recent_lastn recent_pop recent_append del: logs_simps)
    from Cons.IH [OF this] Some show ?thesis by (simp add: Let_def)
  qed
qed

lemma scan_shown:
  assumes "recent u" "p \<noteq> SpawnError"
  shows "recent (fst (scan_windows_updates_quiet json_loads u s e p))
    \<and> live_log (fst (scan_windows_updates_quiet json_loads u s e p)) =
        lastn 20 (appended (fst (scan_windows_updates_quiet json_loads u s e p)))"
proof (cases p)
  case FileNotFoundError
  with assms(1) show ?thesis
    by (simp add: scan_windows_updates_quiet_def recent_lastn recent_append del: logs_simps)
next
  case SpawnError
  with assms(2) show ?thesis by simp
next
  case (Spawned c)
  show ?thesis
  proof (cases c)
    case (TimeoutExpired partial)
    with Spawned assms(1) show ?thesis
      by (simp add: scan_windows_updates_quiet_def Let_def recent_lastn recent_pop recent_append
            del: logs_simps)
  next
    case (Output out)
    obtain items err where parse: "scan_parse json_loads (strip out) = (items, err)"
      by (cases "scan_parse json_loads (strip out)")
    define u1 where "u1 = render (log_append (''Checking Windows updates'' @ hellip) u)"
    define u2 where "u2 = (case err of None \<Rightarrow> u1
                | Some msg \<Rightarrow> render (log_append (''Windows update parse error: '' @ msg) u1))"
    have u1: "recent u1" "live_log u1 = lastn 20 (appended u1)"
      using assms(1) by (simp_all add: u1_def recent_lastn recent_append del: logs_simps)
    have u2: "recent u2" "live_log u2 = lastn 20 (appended u2)"
      using u1 by (cases err; simp add: u2_def recent_lastn recent_append del: logs_simps)+
    note scan = scan_Output [OF parse u1_def u2_def, of s e]
    show ?thesis
    proof (cases "items = []")
      case True
      with Spawned Output scan u2(1) show ?thesis
        by (simp add: recent_lastn recent_append del: logs_simps)
    next
      case False
      obtain u3 r where rep: "report_updates s e (take 50 items) u2 = (u3, r)"
        by (cases "report_updates s e (take 50 items) u2")
      with report_updates_shown [OF u2, of s e "take 50 items"]
      have u3: "recent u3" "live_log u3 = lastn 20 (appended u3)" by simp_all
      with Spawned Output scan False rep show ?thesis
        by (cases r) simp_all
    qed
  qed
qed

lemma health_check_shown:
  assumes apps: "stream_winget_upgrades
      (render (log_append (''Preparing winget app scan'' @ hellip)
         (set_description (''Preparing winget app scan'' @ hellip) health_start))) 0 40 p = (u2, Returns found)"
    and u2: "recent u2"
  shows "live_log (fst (health_check p junk)) = lastn 20 (appended (fst (health_check p junk)))"
  using apps u2
  by (simp add: health_check_def Let_def recent_lastn recent_pop recent_append del: logs_simps)

text \<open>
  What holds of the two logs. In \<^verbatim>\<open>run_with_live_output\<close> the list \<open>logs\<close> is, after every
  line, the last 40 of the lines appended (the title, then the lines read), so it never holds
  more than 40. In the health check, after \<^verbatim>\<open>_stream_winget_upgrades\<close>,
  \<^verbatim>\<open>_scan_windows_updates_quiet\<close> and \<^verbatim>\<open>health_check\<close>, for every output of the process, the
  log panel shows the last 20 of all the lines appended so far, in their order.
\<close>

lemma log_panel_window:
  "logs (run_ui (run_loop soft_total (run_start title) ls)) =
     lastn 40 (appended (run_ui (run_loop soft_total (run_start title) ls)))
   \<and> appended (run_ui (run_loop soft_total (run_start title) ls)) =
       title # map rstrip (filter (\<lambda>l. l \<noteq> []) ls)
   \<and> length (logs (run_ui (run_loop soft_total (run_start title) ls))) \<le> 40
   \<and> (recent u \<longrightarrow> p \<noteq> SpawnError \<longrightarrow>
        recent (fst (stream_winget_upgrades u phase_start phase_end p))
        \<and> live_log (fst (stream_winget_upgrades u phase_start phase_end p)) =
            lastn 20 (appended (fst (stream_winget_upgrades u phase_start phase_end p)))
        \<and> length (live_log (fst (stream_winget_upgrades u phase_start phase_end p))) \<le> 20)
   \<and> (recent u \<longrightarrow> p \<noteq> SpawnError \<longrightarrow>
        recent (fst (scan_windows_updates_quiet json_loads u phase_start phase_end p))
        \<and> live_log (fst (scan_windows_updates_quiet json_loads u phase_start phase_end p)) =
            lastn 20 (appended (fst (scan_windows_updates_quiet json_loads u phase_start phase_end p)))
        \<and> length (live_log (fst (scan_windows_updates_quiet json_loads u phase_start phase_end p))) \<le> 20)
   \<and> (p \<noteq> SpawnError \<longrightarrow>
        live_log (fst (health_check p junk)) = lastn 20 (appended (fst (health_check p junk)))
        \<and> length (live_log (fst (health_check p junk))) \<le> 20)"
proof (intro conjI impI)
  show "logs (run_ui (run_loop soft_total (run_start title) ls)) =
     lastn 40 (appended (run_ui (run_loop soft_total (run_start title) ls)))"
    by (simp add: run_loop_log)
  show "appended (run_ui (run_loop soft_total (run_start title) ls)) =
       title # map rstrip (filter (\<lambda>l. l \<noteq> []) ls)"
    by (simp add: run_loop_log)
  show "length (logs (run_ui (run_loop soft_total (run_start title) ls))) \<le> 40"
    by (simp add: run_loop_log)
next
  assume u: "recent u" and p: "p \<noteq> SpawnError"
  note s = stream_shown [OF u p, of phase_start phase_end]
  from s show "recent (fst (stream_winget_upgrades u phase_start phase_end p))" by simp
  from s show "live_log (fst (stream_winget_upgrades u phase_start phase_end p)) =
            lastn 20 (appended (fst (stream_winget_upgrades u phase_start phase_end p)))" by simp
  from s show "length (live_log (fst (stream_winget_upgrades u phase_start phase_end p))) \<le> 20"
    by simp
next
  assume u: "recent u" and p: "p \<noteq> SpawnError"
  note s = scan_shown [OF u p, of json_loads phase_start phase_end]
  from s show "recent (fst (scan_windows_updates_quiet json_loads u phase_start phase_end p))" by simp
  from s show "live_log (fst (scan_windows_updates_quiet json_loads u phase_start phase_end p)) =
            lastn 20 (appended (fst (scan_windows_updates_quiet json_loads u phase_start phase_end p)))"
    by simp
  from s show "length (live_log (fst (scan_windows_updates_quiet json_loads u phase_start phase_end p))) \<le> 20"
    by simp
next
  assume p: "p \<noteq> SpawnError"
  let ?u1 = "render (log_append (''Preparing winget app scan'' @ hellip)
         (set_description (''Preparing winget app scan'' @ hellip) health_start))"
  obtain u2 r where run: "stream_winget_upgrades ?u1 0 40 p = (u2, r)"
    by (cases "stream_winget_upgrades ?u1 0 40 p")
  with stream_returns [OF p, of ?u1 0 40] obtain found where r: "r = Returns found"
    by auto
  have "recent ?u1" using recent_start by (simp add: recent_append)
  from stream_shown [OF this p, of 0 40] run have "recent u2" by simp
  from health_check_shown [OF run [unfolded r] this, of junk]
  show window: "live_log (fst (health_check p junk)) = lastn 20 (appended (fst (health_check p junk)))" .
  then show "length (live_log (fst (health_check p junk))) \<le> 20" by simp
qed


text \<open>An append followed by the removal of the oldest line keeps a list of at most 20 within 20.\<close>

lemma append_pop_within_20:
  "length (logs u) \<le> 20 \<Longrightarrow> length (logs (log_pop (log_append s u))) \<le> 20"
  by simp

text \<open>
  C2: after each append the log holds at most 20 lines in the health check. The code breaks
  this for its list \<open>logs\<close>: in \<^verbatim>\<open>health_check\<close> the lines "Scanning junk files" and
  "Scan complete." are appended without the removal of the oldest line that follows the
  other appends of the same function. With a winget table of 18 rows, 25 lines are appended
  in all and the list holds 22 of them at the end of the scan, while the panel shows 20.
\<close>

theorem rolling_log_overflow:
  "length (logs (fst (health_check (Spawned (Output
      (''Name  Id  Version  Available'' @ [CHR 0x0A] @ ''----------------------------'' @ [CHR 0x0A] @
       concat (replicate 18 (''Foo  Foo.App  1.0  2.0'' @ [CHR 0x0A]))))) ''1.0 KB''))) = 22
   \<and> length (appended (fst (health_check (Spawned (Output
      (''Name  Id  Version  Available'' @ [CHR 0x0A] @ ''----------------------------'' @ [CHR 0x0A] @
       concat (replicate 18 (''Foo  Foo.App  1.0  2.0'' @ [CHR 0x0A]))))) ''1.0 KB''))) = 25
   \<and> length (live_log (fst (health_check (Spawned (Output
      (''Name  Id  Version  Available'' @ [CHR 0x0A] @ ''----------------------------'' @ [CHR 0x0A] @
       concat (replicate 18 (''Foo  Foo.App  1.0  2.0'' @ [CHR 0x0A]))))) ''1.0 KB''))) = 20"
  by code_simp

end
